theory Spec2Isabelle
  imports Complex_Main "HOL-Library.Multiset"
begin

section \<open>Python values used by the program\<close>

text \<open>
  A Python \<open>str\<close> is a sequence of Unicode code points, so it is modelled as a list of
  natural numbers; \<open>bytes\<close> is a list of numbers below 256. Python integers are
  unbounded (\<open>int\<close>). In the aggregator the Python floats are an abstract type whose
  operations are parameters. In the entropy calculation and the page scorer they are
  exact reals: the rounding error of IEEE arithmetic is not represented there, and the
  bounds proved there (6.65 and 1 against the threshold 7) leave room for it.
\<close>

type_synonym pystr = "nat list"
type_synonym pybytes = "nat list"

definition str :: "string \<Rightarrow> pystr" where
  "str s = map of_char s"

datatype py_error =
  ValueError | TypeError | AttributeError | BinasciiError | UnicodeDecodeError

section \<open>The builtin \<open>range\<close>\<close>

text \<open>
  \<open>range(start, stop, step)\<close> raises ValueError for a zero step, counts upwards while
  below \<open>stop\<close> for a positive step and downwards while above it for a negative one.
\<close>

function range_up :: "int \<Rightarrow> int \<Rightarrow> int \<Rightarrow> int list" where
  "range_up i stop step =
     (if 0 < step \<and> i < stop then i # range_up (i + step) stop step else [])"
  by pat_completeness auto
termination
  by (relation "measure (\<lambda>(i, stop, step). nat (stop - i))") auto

function range_down :: "int \<Rightarrow> int \<Rightarrow> int \<Rightarrow> int list" where
  "range_down i stop step =
     (if step < 0 \<and> stop < i then i # range_down (i + step) stop step else [])"
  by pat_completeness auto
termination
  by (relation "measure (\<lambda>(i, stop, step). nat (i - stop))") auto

declare range_up.simps [simp del] range_down.simps [simp del]

definition py_range :: "int \<Rightarrow> int \<Rightarrow> int \<Rightarrow> py_error + int list" where
  "py_range start stop step =
     (if step = 0 then Inl ValueError
      else if 0 < step then Inr (range_up start stop step)
      else Inr (range_down start stop step))"

section \<open>Orchestrator: the chunk list\<close>

text \<open>
  \<open>chunks = [(i, min(i + chunk_size, total_pages)) for i in range(0, total_pages, chunk_size)]\<close>
\<close>

definition chunks :: "int \<Rightarrow> int \<Rightarrow> py_error + (int \<times> int) list" where
  "chunks total_pages chunk_size =
     (case py_range 0 total_pages chunk_size of
        Inl e \<Rightarrow> Inl e
      | Inr is \<Rightarrow> Inr (map (\<lambda>i. (i, min (i + chunk_size) total_pages)) is))"

text \<open>The pages of a half-open range \<open>[a, b)\<close>, in order.\<close>

definition pages_of :: "int \<times> int \<Rightarrow> int list" where
  "pages_of c = [fst c ..  snd c - 1]"

section \<open>The chunk list partitions the page interval\<close>

lemma range_up_Nil: "\<not> i < stop \<Longrightarrow> range_up i stop step = []"
  by (simp add: range_up.simps[of i stop step])

lemma range_up_Cons:
  "0 < step \<Longrightarrow> i < stop \<Longrightarrow> range_up i stop step = i # range_up (i + step) stop step"
  by (simp add: range_up.simps[of i stop step])

lemma range_up_nth:
  "k < length (range_up i stop step) \<Longrightarrow>
     range_up i stop step ! k = i + int k * step \<and> i + int k * step < stop \<and> 0 < step"
proof (induction i stop step arbitrary: k rule: range_up.induct)
  case (1 i stop step)
  show ?case
  proof (cases "0 < step \<and> i < stop")
    case False
    then have "range_up i stop step = []" by (simp add: range_up.simps[of i stop step])
    with "1.prems" show ?thesis by simp
  next
    case True
    then have eq: "range_up i stop step = i # range_up (i + step) stop step"
      by (simp add: range_up_Cons)
    show ?thesis
    proof (cases k)
      case 0
      with True eq show ?thesis by simp
    next
      case (Suc j)
      with eq "1.prems" have "j < length (range_up (i + step) stop step)"
        by simp
      from "1.IH"[OF True this] True Suc eq show ?thesis
        by (simp add: algebra_simps)
    qed
  qed
qed

lemma range_up_pages:
  "0 < step \<Longrightarrow> i \<le> stop \<Longrightarrow>
   concat (map (\<lambda>j. [j .. min (j + step) stop - 1]) (range_up i stop step)) = [i .. stop - 1]"
proof (induction i stop step rule: range_up.induct)
  case (1 i stop step)
  show ?case
  proof (cases "i < stop")
    case False
    with "1.prems" show ?thesis by (simp add: range_up_Nil)
  next
    case True
    then have eq: "range_up i stop step = i # range_up (i + step) stop step"
      using "1.prems" by (simp add: range_up_Cons)
    show ?thesis
    proof (cases "i + step \<le> stop")
      case le: True
      have "[i .. stop - 1] = [i .. (i + step) - 1] @ [i + step .. stop - 1]"
        using "1.prems" le upto_split2[of i "i + step - 1" "stop - 1"] by simp
      with "1.IH" "1.prems" True le eq show ?thesis
        by (simp add: min_def)
    next
      case gt: False
      then have "range_up (i + step) stop step = []"
        by (simp add: range_up_Nil)
      with "1.prems" True gt eq show ?thesis
        by (simp add: min_def)
    qed
  qed
qed

lemma range_up_last:
  "0 < step \<Longrightarrow> i < stop \<Longrightarrow> stop \<le> last (range_up i stop step) + step"
proof (induction i stop step rule: range_up.induct)
  case (1 i stop step)
  then have eq: "range_up i stop step = i # range_up (i + step) stop step"
    by (simp add: range_up_Cons)
  show ?case
  proof (cases "i + step < stop")
    case True
    then have "range_up (i + step) stop step \<noteq> []"
      using "1.prems" by (simp add: range_up_Cons)
    with "1.IH" "1.prems" True eq show ?thesis
      by simp
  next
    case False
    then have "range_up (i + step) stop step = []"
      by (simp add: range_up_Nil)
    with "1.prems" False eq show ?thesis
      by simp
  qed
qed

lemma chunks_pages:
  assumes "0 \<le> n" and "0 < k"
  shows "\<exists>cl. chunks n k = Inr cl \<and> concat (map pages_of cl) = [0 .. n - 1]"
  using assms range_up_pages[OF assms(2,1)]
  by (simp add: chunks_def py_range_def pages_of_def comp_def)

text \<open>
  C5. For \<open>total_pages \<ge> 0\<close> and \<open>chunk_size \<ge> 1\<close> the chunk list is computed without
  error and partitions \<open>[0, total_pages)\<close>: the pages of the ranges, concatenated in list
  order, are exactly \<open>0, 1, ..., total_pages - 1\<close> (so there is no gap and no page
  twice); range \<open>k\<close> starts at \<open>k * chunk_size\<close> and is not empty; each range ends where
  the next one starts; every range but the last has exactly \<open>chunk_size\<close> pages and the
  last has at most that many.
\<close>

theorem chunks_partition:
  assumes "0 \<le> total_pages" and "1 \<le> chunk_size"
  shows "\<exists>cl. chunks total_pages chunk_size = Inr cl
     \<and> concat (map pages_of cl) = [0 .. total_pages - 1]
     \<and> (\<forall>k. k < length cl \<longrightarrow>
            fst (cl ! k) = int k * chunk_size \<and> fst (cl ! k) < snd (cl ! k)
          \<and> snd (cl ! k) \<le> total_pages \<and> snd (cl ! k) - fst (cl ! k) \<le> chunk_size)
     \<and> (\<forall>k. Suc k < length cl \<longrightarrow>
            snd (cl ! k) = fst (cl ! Suc k) \<and> snd (cl ! k) - fst (cl ! k) = chunk_size)
     \<and> (\<forall>j k. j < k \<and> k < length cl \<longrightarrow> snd (cl ! j) \<le> fst (cl ! k))
     \<and> (cl \<noteq> [] \<longrightarrow> fst (hd cl) = 0 \<and> snd (last cl) = total_pages)
     \<and> (cl = [] \<longleftrightarrow> total_pages = 0)"
proof -
  let ?r = "range_up 0 total_pages chunk_size"
  let ?f = "\<lambda>i. (i, min (i + chunk_size) total_pages)"
  let ?cl = "map ?f ?r"
  have pos: "0 < chunk_size" using assms by simp
  have c: "chunks total_pages chunk_size = Inr ?cl"
    using pos by (simp add: chunks_def py_range_def)
  have nth: "\<And>k. k < length ?r \<Longrightarrow> ?r ! k = int k * chunk_size \<and> int k * chunk_size < total_pages"
    using range_up_nth[of _ 0 total_pages chunk_size] by simp
  have p1: "concat (map pages_of ?cl) = [0 .. total_pages - 1]"
    using range_up_pages[OF pos assms(1)] by (simp add: pages_of_def comp_def)
  have p2: "\<forall>k. k < length ?cl \<longrightarrow>
            fst (?cl ! k) = int k * chunk_size \<and> fst (?cl ! k) < snd (?cl ! k)
          \<and> snd (?cl ! k) \<le> total_pages \<and> snd (?cl ! k) - fst (?cl ! k) \<le> chunk_size"
    using nth pos by (auto simp: min_def)
  have p3: "\<forall>k. Suc k < length ?cl \<longrightarrow>
            snd (?cl ! k) = fst (?cl ! Suc k) \<and> snd (?cl ! k) - fst (?cl ! k) = chunk_size"
  proof (intro allI impI)
    fix k assume k: "Suc k < length ?cl"
    then have a: "?r ! k = int k * chunk_size" and b: "?r ! Suc k = int (Suc k) * chunk_size"
      and d: "int (Suc k) * chunk_size < total_pages"
      using nth[of k] nth[of "Suc k"] by simp_all
    from d have "int k * chunk_size + chunk_size < total_pages" by (simp add: algebra_simps)
    with k a b show "snd (?cl ! k) = fst (?cl ! Suc k) \<and> snd (?cl ! k) - fst (?cl ! k) = chunk_size"
      by (simp add: min_def algebra_simps)
  qed
  have p4: "\<forall>j k. j < k \<and> k < length ?cl \<longrightarrow> snd (?cl ! j) \<le> fst (?cl ! k)"
  proof (intro allI impI)
    fix j k assume jk: "j < k \<and> k < length ?cl"
    then have a: "?r ! j = int j * chunk_size" and b: "?r ! k = int k * chunk_size"
      using nth[of k] nth[of j] by simp_all
    from jk have "int j + 1 \<le> int k" by simp
    then have "(int j + 1) * chunk_size \<le> int k * chunk_size"
      using pos by (intro mult_right_mono) simp_all
    then have "int j * chunk_size + chunk_size \<le> int k * chunk_size"
      by (simp add: algebra_simps)
    with jk a b show "snd (?cl ! j) \<le> fst (?cl ! k)"
      by (simp add: min_def)
  qed
  have p5: "?cl \<noteq> [] \<longrightarrow> fst (hd ?cl) = 0 \<and> snd (last ?cl) = total_pages"
  proof
    assume ne: "?cl \<noteq> []"
    then have lt: "0 < total_pages" using range_up_Nil[of 0 total_pages chunk_size] by auto
    from ne have "hd ?r = ?r ! 0" by (simp add: hd_conv_nth)
    with nth[of 0] ne have h: "hd ?r = 0" by simp
    from range_up_last[OF pos lt] have "min (last ?r + chunk_size) total_pages = total_pages"
      by (simp add: min_def)
    with ne h show "fst (hd ?cl) = 0 \<and> snd (last ?cl) = total_pages"
      by (simp add: hd_map last_map)
  qed
  have p6: "?cl = [] \<longleftrightarrow> total_pages = 0"
    using assms pos range_up_Nil[of 0 total_pages chunk_size] range_up_Cons[of chunk_size 0 total_pages]
    by (cases "0 < total_pages") auto
  from c p1 p2 p3 p4 p5 p6 show ?thesis by blast
qed

theorem chunks_partition_witness:
  "chunks 12 5 = Inr [(0, 5), (5, 10), (10, 12)]
   \<and> concat (map pages_of [(0, 5), (5, 10), (10, 12)]) = [0 .. 12 - 1]"
proof -
  have c: "chunks 12 5 = Inr [(0, 5), (5, 10), (10, 12)]"
    by (simp add: chunks_def py_range_def range_up.simps)
  from chunks_partition[of 12 5] c show ?thesis by auto
qed

section \<open>Aggregator\<close>

text \<open>
  The aggregator adds, divides, rounds and compares Python floats (IEEE doubles). Their
  arithmetic is not that of the reals, so the float type \<open>'f\<close> and the operations the
  aggregator uses are taken as given: the literals \<open>0.0\<close>, \<open>0.2\<close>, \<open>3.0\<close> and \<open>7.0\<close>,
  \<open>x + y\<close>, \<open>x > y\<close>, the true division \<open>m / n\<close> of two integers and \<open>x / n\<close> of a float by
  an integer, and the builtin \<open>round(x, 2)\<close>. A page score that JSON gives as an integer
  is its float value.
\<close>

record 'f float_ops =
  fzero :: 'f
  lit_0_2 :: 'f
  lit_3_0 :: 'f
  lit_7_0 :: 'f
  fadd :: "'f \<Rightarrow> 'f \<Rightarrow> 'f"
  fgt :: "'f \<Rightarrow> 'f \<Rightarrow> bool"
  int_truediv :: "int \<Rightarrow> int \<Rightarrow> 'f"
  float_truediv :: "'f \<Rightarrow> int \<Rightarrow> 'f"
  round2 :: "'f \<Rightarrow> 'f"

text \<open>\<open>max(a, b)\<close> keeps \<open>a\<close> unless \<open>b > a\<close>.\<close>

definition py_max :: "'f float_ops \<Rightarrow> 'f \<Rightarrow> 'f \<Rightarrow> 'f" where
  "py_max ops a b = (if fgt ops b a then b else a)"

text \<open>
  A page of a chunk result, as the aggregator reads it: \<open>page_number\<close> is read with
  \<open>page['page_number']\<close>; \<open>suspicious\<close>, \<open>suspicion_score\<close> and \<open>suspicion_reasons\<close> are
  read with \<open>page.get\<close>, so they may be absent (\<open>None\<close>). The other keys of a page
  (text, tables, ...) are carried in \<open>other_keys\<close>.
\<close>

record ('r, 'x, 'f) page =
  page_number :: int
  suspicious :: "bool option"
  suspicion_score :: "'f option"
  suspicion_reasons :: "'r list option"
  other_keys :: 'x

record ('r, 'x, 'f, 'k, 'v) chunk_result =
  total_pages :: int
  processed_pages :: int
  extracted_content :: "('r, 'x, 'f) page list"
  document_metadata :: "('k \<times> 'v) list option"

record ('r, 'f) document_analysis =
  suspicious_pages :: int
  average_suspicion_score :: 'f
  overall_suspicious :: bool
  all_suspicion_reasons :: "'r set"
  max_suspicion_score :: 'f

record ('r, 'x, 'f, 'k, 'v) document_result =
  total_pages_d :: int
  processed_pages_d :: int
  extracted_content_d :: "('r, 'x, 'f) page list"
  document_metadata_d :: "('k \<times> 'v) list"
  document_analysis :: "('r, 'f) document_analysis"

definition page_suspicious :: "('r, 'x, 'f) page \<Rightarrow> bool" where
  "page_suspicious page = (case suspicious page of None \<Rightarrow> False | Some b \<Rightarrow> b)"

definition page_score :: "'f float_ops \<Rightarrow> ('r, 'x, 'f) page \<Rightarrow> 'f" where
  "page_score ops page = (case suspicion_score page of None \<Rightarrow> fzero ops | Some s \<Rightarrow> s)"

text \<open>The body of the inner loop over the pages of one chunk result.\<close>

definition page_step ::
  "'f float_ops \<Rightarrow> ('r, 'x, 'f) page \<Rightarrow> ('r, 'f) document_analysis \<times> 'f
     \<Rightarrow> ('r, 'f) document_analysis \<times> 'f" where
  "page_step ops page st =
     (let (a, total_suspicion_score) = st;
          a1 = (if page_suspicious page
                then a\<lparr>suspicious_pages := suspicious_pages a + 1\<rparr> else a);
          score = page_score ops page;
          a2 = a1\<lparr>max_suspicion_score := py_max ops (max_suspicion_score a1) score\<rparr>;
          a3 = (case suspicion_reasons page of
                  None \<Rightarrow> a2
                | Some rs \<Rightarrow> if rs = [] then a2
                    else a2\<lparr>all_suspicion_reasons := all_suspicion_reasons a2 \<union> set rs\<rparr>)
      in (a3, fadd ops total_suspicion_score score))"

text \<open>The body of the outer loop over the chunk results.\<close>

definition result_step ::
  "'f float_ops \<Rightarrow> ('r, 'x, 'f, 'k, 'v) chunk_result
     \<Rightarrow> ('r, 'x, 'f, 'k, 'v) document_result \<times> 'f
     \<Rightarrow> ('r, 'x, 'f, 'k, 'v) document_result \<times> 'f" where
  "result_step ops result st =
     (let (combined, total_suspicion_score) = st;
          c1 = combined\<lparr>total_pages_d := max (total_pages_d combined) (total_pages result),
                         processed_pages_d := processed_pages_d combined + processed_pages result,
                         extracted_content_d := extracted_content_d combined @ extracted_content result\<rparr>;
          c2 = (case document_metadata result of
                  None \<Rightarrow> c1
                | Some md \<Rightarrow> if length (document_metadata_d c1) < length md
                    then c1\<lparr>document_metadata_d := md\<rparr> else c1);
          (a, t) = fold (page_step ops) (extracted_content result)
                     (document_analysis c2, total_suspicion_score)
      in (c2\<lparr>document_analysis := a\<rparr>, t))"

text \<open>The literal that \<open>combined\<close> starts as.\<close>

definition initial_result :: "'f float_ops \<Rightarrow> ('r, 'x, 'f, 'k, 'v) document_result" where
  "initial_result ops = \<lparr>total_pages_d = 0, processed_pages_d = 0, extracted_content_d = [],
                  document_metadata_d = [],
                  document_analysis = \<lparr>suspicious_pages = 0, average_suspicion_score = fzero ops,
                     overall_suspicious = False, all_suspicion_reasons = {},
                     max_suspicion_score = fzero ops\<rparr>\<rparr>"

definition combine_results ::
  "'f float_ops \<Rightarrow> ('r, 'x, 'f, 'k, 'v) chunk_result list
     \<Rightarrow> ('r, 'x, 'f, 'k, 'v) document_result" where
  "combine_results ops results =
     (let (c, total_suspicion_score) = fold (result_step ops) results (initial_result ops, fzero ops);
          c1 = c\<lparr>extracted_content_d := sort_key page_number (extracted_content_d c)\<rparr>;
          a = document_analysis c1
      in if 0 < processed_pages_d c1 then
           let avg = round2 ops (float_truediv ops total_suspicion_score (processed_pages_d c1));
               a1 = a\<lparr>average_suspicion_score := avg\<rparr>;
               suspicious_page_ratio = int_truediv ops (suspicious_pages a1) (processed_pages_d c1)
           in c1\<lparr>document_analysis := a1\<lparr>overall_suspicious :=
                  (fgt ops suspicious_page_ratio (lit_0_2 ops)
                   \<or> fgt ops (average_suspicion_score a1) (lit_3_0 ops)
                   \<or> fgt ops (max_suspicion_score a1) (lit_7_0 ops))\<rparr>\<rparr>
         else c1)"

section \<open>Properties of the aggregator\<close>

lemma fold_page_step_count:
  "suspicious_pages (fst (fold (page_step ops) ps st))
     = suspicious_pages (fst st) + int (length (filter page_suspicious ps))"
  by (induction ps arbitrary: st) (auto simp: page_step_def Let_def split: prod.splits option.splits)

lemma fold_page_step_total:
  "snd (fold (page_step ops) ps st) = foldl (fadd ops) (snd st) (map (page_score ops) ps)"
  by (induction ps arbitrary: st) (auto simp: page_step_def Let_def split: prod.splits option.splits)

lemma fold_page_step_max:
  "max_suspicion_score (fst (fold (page_step ops) ps st))
     = foldl (py_max ops) (max_suspicion_score (fst st)) (map (page_score ops) ps)"
  by (induction ps arbitrary: st) (auto simp: page_step_def Let_def split: prod.splits option.splits)

lemma fold_page_step_flags:
  "average_suspicion_score (fst (fold (page_step ops) ps st)) = average_suspicion_score (fst st)
   \<and> overall_suspicious (fst (fold (page_step ops) ps st)) = overall_suspicious (fst st)"
  by (induction ps arbitrary: st) (auto simp: page_step_def Let_def split: prod.splits option.splits)

lemma result_step_fields:
  "processed_pages_d (fst (result_step ops r st)) = processed_pages_d (fst st) + processed_pages r"
  "extracted_content_d (fst (result_step ops r st)) = extracted_content_d (fst st) @ extracted_content r"
  "total_pages_d (fst (result_step ops r st)) = max (total_pages_d (fst st)) (total_pages r)"
  "document_analysis (fst (result_step ops r st))
     = fst (fold (page_step ops) (extracted_content r) (document_analysis (fst st), snd st))"
  "snd (result_step ops r st)
     = snd (fold (page_step ops) (extracted_content r) (document_analysis (fst st), snd st))"
  by (auto simp: result_step_def Let_def split: prod.splits option.splits)

lemma fold_result_step_processed:
  "processed_pages_d (fst (fold (result_step ops) rs st))
     = processed_pages_d (fst st) + sum_list (map processed_pages rs)"
  by (induction rs arbitrary: st) (simp_all add: result_step_fields)

lemma fold_result_step_content:
  "extracted_content_d (fst (fold (result_step ops) rs st))
     = extracted_content_d (fst st) @ concat (map extracted_content rs)"
  by (induction rs arbitrary: st) (simp_all add: result_step_fields)

lemma fold_result_step_count:
  "suspicious_pages (document_analysis (fst (fold (result_step ops) rs st)))
     = suspicious_pages (document_analysis (fst st))
       + int (length (filter page_suspicious (concat (map extracted_content rs))))"
  by (induction rs arbitrary: st) (simp_all add: result_step_fields fold_page_step_count)

lemma fold_result_step_total:
  "snd (fold (result_step ops) rs st)
     = foldl (fadd ops) (snd st) (map (page_score ops) (concat (map extracted_content rs)))"
  by (induction rs arbitrary: st) (simp_all add: result_step_fields fold_page_step_total)

lemma fold_result_step_max:
  "max_suspicion_score (document_analysis (fst (fold (result_step ops) rs st)))
     = foldl (py_max ops) (max_suspicion_score (document_analysis (fst st)))
         (map (page_score ops) (concat (map extracted_content rs)))"
  by (induction rs arbitrary: st) (simp_all add: result_step_fields fold_page_step_max)

lemma fold_result_step_flags:
  "average_suspicion_score (document_analysis (fst (fold (result_step ops) rs st)))
     = average_suspicion_score (document_analysis (fst st))
   \<and> overall_suspicious (document_analysis (fst (fold (result_step ops) rs st)))
     = overall_suspicious (document_analysis (fst st))"
  by (induction rs arbitrary: st) (simp_all add: result_step_fields fold_page_step_flags)

lemma combine_results_unfold:
  fixes results :: "('r, 'x, 'f, 'k, 'v) chunk_result list" and ops :: "'f float_ops"
  defines "st \<equiv> fold (result_step ops) results (initial_result ops, fzero ops)"
  defines "P \<equiv> processed_pages_d (fst st)"
  defines "a \<equiv> document_analysis (fst st)"
  shows "processed_pages_d (combine_results ops results) = P"
    and "extracted_content_d (combine_results ops results)
           = sort_key page_number (extracted_content_d (fst st))"
    and "suspicious_pages (document_analysis (combine_results ops results)) = suspicious_pages a"
    and "max_suspicion_score (document_analysis (combine_results ops results)) = max_suspicion_score a"
    and "average_suspicion_score (document_analysis (combine_results ops results))
           = (if 0 < P then round2 ops (float_truediv ops (snd st) P)
              else average_suspicion_score a)"
    and "overall_suspicious (document_analysis (combine_results ops results))
           = (if 0 < P then
                (fgt ops (int_truediv ops (suspicious_pages a) P) (lit_0_2 ops)
                 \<or> fgt ops (round2 ops (float_truediv ops (snd st) P)) (lit_3_0 ops)
                 \<or> fgt ops (max_suspicion_score a) (lit_7_0 ops))
              else overall_suspicious a)"
  unfolding st_def P_def a_def combine_results_def
  by (simp_all add: Let_def split: prod.splits)


lemma filter_key_distinct:
  "distinct (map f l) \<Longrightarrow> k \<in> set l \<Longrightarrow> filter (\<lambda>x. f k = f x) l = [k]"
proof (induction l)
  case Nil
  then show ?case by simp
next
  case (Cons a l)
  show ?case
  proof (cases "k = a")
    case True
    have "filter (\<lambda>x. f a = f x) l = []"
      using Cons.prems(1) by (auto simp: filter_empty_conv)
    with True show ?thesis by simp
  next
    case False
    with Cons.prems have kl: "k \<in> set l" by simp
    with Cons.prems(1) have "f k \<noteq> f a" by (metis distinct.simps(2) image_eqI list.simps(9) set_map)
    with Cons kl show ?thesis by simp
  qed
qed

lemma sort_key_distinct_unique:
  assumes "mset ys = mset xs" and "distinct (map f xs)"
  shows "sort_key f ys = sort_key f xs"
proof (rule properties_for_sort_key)
  show "mset (sort_key f xs) = mset ys" using assms(1) by simp
  show "sorted (map f (sort_key f xs))" by simp
  have "mset (map f ys) = mset (map f xs)" using assms(1) by (metis mset_map)
  with assms(2) have dy: "distinct (map f ys)" by (metis mset_eq_imp_distinct_iff)
  have ds: "distinct (map f (sort_key f xs))" using assms(2) by (simp add: distinct_map)
  fix k assume k: "k \<in> set (sort_key f xs)"
  then have "k \<in> set ys" using assms(1) by (metis mset_eq_setD set_sort)
  with dy have "filter (\<lambda>x. f k = f x) ys = [k]" by (rule filter_key_distinct)
  moreover from ds k have "filter (\<lambda>x. f k = f x) (sort_key f xs) = [k]" by (rule filter_key_distinct)
  ultimately show "filter (\<lambda>x. f k = f x) (sort_key f xs) = filter (\<lambda>x. f k = f x) ys" by simp
qed

lemma mset_concat_perm:
  "mset rs' = mset rs \<Longrightarrow> mset (concat (map g rs')) = mset (concat (map g rs))"
proof -
  assume a: "mset rs' = mset rs"
  have "\<And>l. mset (concat (map g l)) = sum_mset (image_mset (\<lambda>r. mset (g r)) (mset l))"
    by (induct_tac l) simp_all
  with a show ?thesis by simp
qed

lemma combine_results_content:
  "extracted_content_d (combine_results ops results)
     = sort_key page_number (concat (map extracted_content results))"
  by (simp add: combine_results_unfold fold_result_step_content initial_result_def)

text \<open>
  C4. When the pages of the chunk results carry pairwise distinct page numbers, every
  permutation of the list of chunk results gives the same \<open>extracted_content\<close>, which is
  sorted ascending by page number and holds exactly the pages of the chunk results.
\<close>

theorem combine_results_order_independent:
  assumes "distinct (map page_number (concat (map extracted_content results)))"
      and "mset results' = mset results"
  shows "extracted_content_d (combine_results ops results')
           = extracted_content_d (combine_results ops results)
       \<and> sorted (map page_number (extracted_content_d (combine_results ops results)))
       \<and> mset (extracted_content_d (combine_results ops results))
           = mset (concat (map extracted_content results))"
proof -
  from assms(2) have "mset (concat (map extracted_content results'))
                    = mset (concat (map extracted_content results))"
    by (rule mset_concat_perm)
  from sort_key_distinct_unique[OF this assms(1)] show ?thesis
    by (simp add: combine_results_content)
qed

text \<open>
  C3. Let \<open>P\<close> be the sum of the chunks' \<open>processed_pages\<close>, \<open>S\<close> the number of pages
  flagged suspicious, \<open>T\<close> the float sum of all page scores, added one after the other
  to \<open>0.0\<close> in the order of the chunks and their pages, \<open>M\<close> the maximum of \<open>0.0\<close> and all
  page scores, and \<open>avg = round(T / P, 2)\<close>. Then \<open>suspicious_pages = S\<close> and
  \<open>max_suspicion_score = M\<close>; when \<open>P > 0\<close>, \<open>average_suspicion_score = avg\<close> and
  \<open>overall_suspicious\<close> holds exactly when \<open>S / P > 0.2\<close> or \<open>avg > 3.0\<close> or \<open>M > 7.0\<close>;
  when \<open>P\<close> is not positive, \<open>overall_suspicious\<close> is false and
  \<open>average_suspicion_score\<close> is \<open>0.0\<close>. This holds whatever the float operations are.
\<close>

theorem overall_suspicious_iff:
  "let pages = concat (map extracted_content results);
       P = sum_list (map processed_pages results);
       S = int (length (filter page_suspicious pages));
       T = foldl (fadd ops) (fzero ops) (map (page_score ops) pages);
       M = foldl (py_max ops) (fzero ops) (map (page_score ops) pages);
       avg = round2 ops (float_truediv ops T P);
       a = document_analysis (combine_results ops results)
   in processed_pages_d (combine_results ops results) = P
    \<and> suspicious_pages a = S
    \<and> max_suspicion_score a = M
    \<and> (0 < P \<longrightarrow> average_suspicion_score a = avg
          \<and> overall_suspicious a
              = (fgt ops (int_truediv ops S P) (lit_0_2 ops) \<or> fgt ops avg (lit_3_0 ops)
                 \<or> fgt ops M (lit_7_0 ops)))
    \<and> (P \<le> 0 \<longrightarrow> \<not> overall_suspicious a \<and> average_suspicion_score a = fzero ops)"
proof -
  let ?st = "fold (result_step ops) results (initial_result ops, fzero ops)"
  have P: "processed_pages_d (fst ?st) = sum_list (map processed_pages results)"
    by (simp add: fold_result_step_processed initial_result_def)
  have S: "suspicious_pages (document_analysis (fst ?st))
             = int (length (filter page_suspicious (concat (map extracted_content results))))"
    by (simp add: fold_result_step_count initial_result_def)
  have T: "snd ?st = foldl (fadd ops) (fzero ops)
                       (map (page_score ops) (concat (map extracted_content results)))"
    by (simp add: fold_result_step_total)
  have M: "max_suspicion_score (document_analysis (fst ?st))
             = foldl (py_max ops) (fzero ops)
                 (map (page_score ops) (concat (map extracted_content results)))"
    by (simp add: fold_result_step_max initial_result_def)
  have F: "average_suspicion_score (document_analysis (fst ?st)) = fzero ops"
          "overall_suspicious (document_analysis (fst ?st)) = False"
    using fold_result_step_flags[of ops results "(initial_result ops, fzero ops)"]
    by (simp_all add: initial_result_def)
  show ?thesis
    unfolding Let_def combine_results_unfold P S T M F by simp
qed


text \<open>
  For concrete evaluation: exact arithmetic on the reals. \<open>round(x, 2)\<close> of a double \<open>x\<close>
  is the decimal rounding (nearest multiple of 0.01, a tie to the even one) of the exact
  value of \<open>x\<close>, stored as the nearest double; \<open>decimal_round2\<close> is that rounding on a real.
  It is not \<open>round\<close> on a decimal numeral that no double holds: the double written
  \<open>2.675\<close> lies below 2.675, so \<open>round(2.675, 2)\<close> is 2.67, while \<open>decimal_round2\<close> of the
  real 2.675 is 2.68. The instance \<open>exact_ops\<close> agrees with double arithmetic where every
  operand and every sum and quotient is a dyadic rational that a double holds exactly,
  as in the document below: four pages in two chunks with the scores 1.5, 2.75, 5.25 and
  2.53125, whose sum 12.03125 and mean 3.0078125 are exact.
\<close>

definition decimal_round2 :: "real \<Rightarrow> real" where
  "decimal_round2 x =
     (let y = x * 100; f = \<lfloor>y\<rfloor> in
      if y - of_int f < 1 / 2 then of_int f / 100
      else if 1 / 2 < y - of_int f then of_int (f + 1) / 100
      else if even f then of_int f / 100 else of_int (f + 1) / 100)"

definition exact_ops :: "real float_ops" where
  "exact_ops = \<lparr>fzero = 0, lit_0_2 = 2 / 10, lit_3_0 = 3, lit_7_0 = 7,
                fadd = (\<lambda>x y. x + y), fgt = (\<lambda>x y. y < x),
                int_truediv = (\<lambda>m n. of_int m / of_int n),
                float_truediv = (\<lambda>x n. x / of_int n),
                round2 = decimal_round2\<rparr>"

definition example_page :: "int \<Rightarrow> bool \<Rightarrow> real \<Rightarrow> (nat, unit, real) page" where
  "example_page n b s = \<lparr>page_number = n, suspicious = Some b, suspicion_score = Some s,
     suspicion_reasons = None, other_keys = ()\<rparr>"

definition example_chunk ::
  "int \<Rightarrow> (nat, unit, real) page list \<Rightarrow> (nat, unit, real, nat, nat) chunk_result" where
  "example_chunk n ps = \<lparr>total_pages = n, processed_pages = int (length ps),
     extracted_content = ps, document_metadata = None\<rparr>"

definition example_results :: "(nat, unit, real, nat, nat) chunk_result list" where
  "example_results =
     [example_chunk 4 [example_page 2 False (21 / 4), example_page 3 False (81 / 32)],
      example_chunk 4 [example_page 0 False (3 / 2), example_page 1 False (11 / 4)]]"

theorem combine_results_order_independent_witness:
  "\<forall>ops. map page_number (extracted_content_d (combine_results ops (rev example_results)))
            = [0, 1, 2, 3]
        \<and> extracted_content_d (combine_results ops (rev example_results))
            = extracted_content_d (combine_results ops example_results)"
proof
  fix ops :: "real float_ops"
  have d: "distinct (map page_number (concat (map extracted_content example_results)))"
    by (simp add: example_results_def example_chunk_def example_page_def)
  have m: "mset (rev example_results) = mset example_results" by simp
  have c: "map page_number (extracted_content_d (combine_results ops example_results))
             = [0, 1, 2, 3]"
    by (simp add: combine_results_content example_results_def example_chunk_def example_page_def)
  from combine_results_order_independent[OF d m, of ops] c
  show "map page_number (extracted_content_d (combine_results ops (rev example_results)))
            = [0, 1, 2, 3]
        \<and> extracted_content_d (combine_results ops (rev example_results))
            = extracted_content_d (combine_results ops example_results)"
    by simp
qed

theorem overall_suspicious_iff_witness:
  "overall_suspicious (document_analysis (combine_results exact_ops example_results))
   \<and> average_suspicion_score (document_analysis (combine_results exact_ops example_results))
       = 301 / 100
   \<and> max_suspicion_score (document_analysis (combine_results exact_ops example_results))
       = 21 / 4
   \<and> suspicious_pages (document_analysis (combine_results exact_ops example_results)) = 0
   \<and> \<not> overall_suspicious (document_analysis (combine_results exact_ops []
          :: (nat, unit, real, nat, nat) document_result))"
proof -
  have r: "decimal_round2 (385 / 128) = 301 / 100" by (simp add: decimal_round2_def)
  have s: "filter page_suspicious (concat (map extracted_content example_results)) = []"
    by (simp add: example_results_def example_chunk_def example_page_def page_suspicious_def)
  have t: "map (page_score exact_ops) (concat (map extracted_content example_results))
             = [21 / 4, 81 / 32, 3 / 2, 11 / 4]"
    by (simp add: example_results_def example_chunk_def example_page_def page_score_def)
  have p: "sum_list (map processed_pages example_results) = 4"
    by (simp add: example_results_def example_chunk_def)
  have o: "fzero exact_ops = 0" "fadd exact_ops = (\<lambda>x y. x + y)" "fgt exact_ops = (\<lambda>x y. y < x)"
    "lit_0_2 exact_ops = 2 / 10" "lit_3_0 exact_ops = 3" "lit_7_0 exact_ops = 7"
    "round2 exact_ops = decimal_round2" "float_truediv exact_ops = (\<lambda>x n. x / of_int n)"
    "int_truediv exact_ops = (\<lambda>m n. of_int m / of_int n)"
    by (simp_all add: exact_ops_def)
  from overall_suspicious_iff[of example_results exact_ops]
       overall_suspicious_iff[of "[] :: (nat, unit, real, nat, nat) chunk_result list" exact_ops]
  show ?thesis
    by (simp add: Let_def s t p o py_max_def r)
qed

section \<open>Entropy\<close>

text \<open>
  \<open>char_count\<close> is a dictionary filled in one pass over the text; a dictionary keeps
  its keys in insertion order, so it is an association list here.
\<close>

fun count_char :: "'a \<Rightarrow> ('a \<times> nat) list \<Rightarrow> ('a \<times> nat) list" where
  "count_char c [] = [(c, 1)]"
| "count_char c ((k, n) # kvs) =
     (if k = c then (k, n + 1) # kvs else (k, n) # count_char c kvs)"

definition char_count :: "'a list \<Rightarrow> ('a \<times> nat) list" where
  "char_count text = fold count_char text []"

definition calculate_entropy :: "'a list \<Rightarrow> real" where
  "calculate_entropy text =
     (if text = [] then 0
      else fold (\<lambda>count entropy.
                   let probability = real count / real (length text)
                   in entropy - probability * log 2 probability)
             (map snd (char_count text)) 0)"

lemma count_char_keys: "fst ` set (count_char c kvs) = insert c (fst ` set kvs)"
  by (induction c kvs rule: count_char.induct) auto

lemma count_char_distinct: "distinct (map fst kvs) \<Longrightarrow> distinct (map fst (count_char c kvs))"
  by (induction c kvs rule: count_char.induct) (auto simp: count_char_keys)

lemma count_char_map_of:
  "map_of (count_char c kvs) =
     (map_of kvs)(c \<mapsto> (case map_of kvs c of None \<Rightarrow> 1 | Some n \<Rightarrow> n + 1))"
  by (induction c kvs rule: count_char.induct) (auto simp: fun_eq_iff)

lemma fold_count_char_distinct:
  "distinct (map fst acc) \<Longrightarrow> distinct (map fst (fold count_char text acc))"
  by (induction "text" arbitrary: acc) (simp_all add: count_char_distinct)

lemma fold_count_char_keys:
  "fst ` set (fold count_char text acc) = set text \<union> fst ` set acc"
  by (induction "text" arbitrary: acc) (simp_all add: count_char_keys)

lemma fold_count_char_map_of:
  "map_of (fold count_char text acc) k =
     (case map_of acc k of
        None \<Rightarrow> if k \<in> set text then Some (count_list text k) else None
      | Some n \<Rightarrow> Some (n + count_list text k))"
proof (induction "text" arbitrary: acc)
  case Nil
  show ?case by (simp split: option.splits)
next
  case (Cons c rest)
  show ?case
    by (simp add: Cons.IH count_char_map_of split: option.splits)
qed

lemma char_count_set:
  "set (char_count text) = (\<lambda>c. (c, count_list text c)) ` set text"
proof -
  have d: "distinct (map fst (char_count text))"
    by (simp add: char_count_def fold_count_char_distinct)
  have m: "\<And>k. map_of (char_count text) k = (if k \<in> set text then Some (count_list text k) else None)"
    by (simp add: char_count_def fold_count_char_map_of)
  show ?thesis
  proof (rule set_eqI)
    fix x :: "'a \<times> nat"
    obtain k n where x: "x = (k, n)" by (cases x)
    have "(k, n) \<in> set (char_count text) \<longleftrightarrow> map_of (char_count text) k = Some n"
      using d by simp
    also have "\<dots> \<longleftrightarrow> k \<in> set text \<and> n = count_list text k"
      by (auto simp: m)
    finally show "x \<in> set (char_count text) \<longleftrightarrow> x \<in> (\<lambda>c. (c, count_list text c)) ` set text"
      using x by auto
  qed
qed

lemma char_count_distinct: "distinct (char_count text)"
proof -
  have "distinct (map fst (char_count text))"
    by (simp add: char_count_def fold_count_char_distinct)
  then show ?thesis by (simp add: distinct_map)
qed

lemma fold_minus_sum_list: "fold (\<lambda>x (e::real). e - g x) xs a = a - sum_list (map g xs)"
  by (induction xs arbitrary: a) simp_all

text \<open>The entropy as a sum over the distinct characters of the text.\<close>

lemma calculate_entropy_sum:
  assumes "text \<noteq> []"
  shows "calculate_entropy text =
     - (\<Sum>c\<in>set text. (real (count_list text c) / real (length text))
                        * log 2 (real (count_list text c) / real (length text)))"
proof -
  let ?g = "\<lambda>n. (real n / real (length text)) * log 2 (real n / real (length text))"
  have "calculate_entropy text = - sum_list (map ?g (map snd (char_count text)))"
    using assms by (simp add: calculate_entropy_def Let_def fold_minus_sum_list)
  also have "sum_list (map ?g (map snd (char_count text)))
           = sum_list (map (\<lambda>kv. ?g (snd kv)) (char_count text))"
    by (simp add: comp_def)
  also have "\<dots> = sum (\<lambda>kv. ?g (snd kv)) (set (char_count text))"
    by (rule sum_list_distinct_conv_sum_set[OF char_count_distinct])
  also have "\<dots> = sum (\<lambda>kv. ?g (snd kv)) ((\<lambda>c. (c, count_list text c)) ` set text)"
    by (simp only: char_count_set)
  also have "\<dots> = (\<Sum>c\<in>set text. ?g (count_list text c))"
    by (subst sum.reindex) (auto simp: inj_on_def)
  finally show ?thesis .
qed

text \<open>Gibbs' inequality: the entropy of a distribution on \<open>k\<close> points is at most \<open>log k\<close>.\<close>

lemma entropy_le_log_card:
  fixes p :: "'a \<Rightarrow> real"
  assumes fin: "finite S" and pos: "\<And>c. c \<in> S \<Longrightarrow> 0 < p c" and one: "sum p S = 1"
  shows "- (\<Sum>c\<in>S. p c * log 2 (p c)) \<le> log 2 (real (card S))"
proof -
  have ne: "S \<noteq> {}" using one by auto
  then have k: "0 < real (card S)" using fin by (simp add: card_gt_0_iff)
  let ?k = "real (card S)"
  have bound: "\<And>c. c \<in> S \<Longrightarrow> - (p c * ln (p c)) - p c * ln ?k \<le> 1 / ?k - p c"
  proof -
    fix c assume c: "c \<in> S"
    then have pc: "0 < p c" by (rule pos)
    have "ln (1 / (?k * p c)) \<le> 1 / (?k * p c) - 1"
      using pc k by (intro ln_le_minus_one) simp
    moreover have "ln (1 / (?k * p c)) = - ln ?k - ln (p c)"
      using pc k by (simp add: ln_div ln_mult)
    ultimately have "p c * (- ln ?k - ln (p c)) \<le> p c * (1 / (?k * p c) - 1)"
      using pc by (simp add: mult_left_mono)
    also have "p c * (1 / (?k * p c) - 1) = 1 / ?k - p c"
      using pc k by (simp add: field_simps)
    finally show "- (p c * ln (p c)) - p c * ln ?k \<le> 1 / ?k - p c"
      by (simp add: algebra_simps)
  qed
  have "(\<Sum>c\<in>S. - (p c * ln (p c)) - p c * ln ?k) \<le> (\<Sum>c\<in>S. 1 / ?k - p c)"
    by (rule sum_mono) (rule bound)
  also have "(\<Sum>c\<in>S. 1 / ?k - p c) = 0"
    using one k by (simp add: sum_subtractf)
  finally have "- (\<Sum>c\<in>S. p c * ln (p c)) - (\<Sum>c\<in>S. p c) * ln ?k \<le> 0"
    by (simp add: sum_subtractf sum_negf sum_distrib_right)
  then have "- (\<Sum>c\<in>S. p c * ln (p c)) \<le> ln ?k"
    using one by simp

  moreover have "0 < ln (2::real)" by simp
  ultimately have "(- (\<Sum>c\<in>S. p c * ln (p c))) / ln 2 \<le> ln ?k / ln 2"
    by (intro divide_right_mono) simp_all
  then show ?thesis
    by (simp add: log_def sum_divide_distrib)
qed

lemma calculate_entropy_le_log_card:
  assumes "text \<noteq> []"
  shows "calculate_entropy text \<le> log 2 (real (card (set text)))"
proof -
  let ?p = "\<lambda>c. real (count_list text c) / real (length text)"
  have len: "0 < real (length text)" using assms by simp
  have "sum ?p (set text) = real (sum (count_list text) (set text)) / real (length text)"
    by (simp add: sum_divide_distrib)
  also have "\<dots> = 1" using len by (simp add: sum_count_set)
  finally have one: "sum ?p (set text) = 1" .
  have pos: "\<And>c. c \<in> set text \<Longrightarrow> 0 < ?p c"
    using len by (simp add: count_list_0_iff zero_less_iff_neq_zero)
  from entropy_le_log_card[of "set text" ?p, OF _ pos one] show ?thesis
    by (simp add: calculate_entropy_sum[OF assms])
qed

lemma calculate_entropy_le_log_length:
  assumes "text \<noteq> []"
  shows "calculate_entropy text \<le> log 2 (real (length text))"
proof -
  have "0 < card (set text)" using assms by (simp add: card_gt_0_iff)
  moreover have "card (set text) \<le> length text" by (rule card_length)
  ultimately have "log 2 (real (card (set text))) \<le> log 2 (real (length text))"
    using assms by (subst log_le_cancel_iff) simp_all
  with calculate_entropy_le_log_card[OF assms] show ?thesis by simp
qed




section \<open>Findings and the high-entropy-block detector\<close>

datatype finding_type =
  Base64 | Base64_binary | Hexadecimal | Hex_binary | Url_encoding | High_entropy

text \<open>
  A finding is a dictionary whose keys depend on its type; a key that a finding does
  not carry is \<open>None\<close>.
\<close>

record finding =
  ftype :: finding_type
  content :: pystr
  sample_decoded :: "pystr option"
  entropy :: "real option"
  block_index :: "nat option"
  confidence :: real

text \<open>\<open>xs[i:j]\<close>: a negative index counts from the end, and both are clamped.\<close>

definition py_slice :: "'a list \<Rightarrow> int \<Rightarrow> int \<Rightarrow> 'a list" where
  "py_slice xs i j =
     (let n = int (length xs);
          clamp = (\<lambda>k. if k < 0 then max (k + n) 0 else min k n);
          a = clamp i; b = clamp j
      in take (nat (b - a)) (drop (nat a) xs))"

text \<open>\<open>s[:50] + ('...' if len(s) > 50 else '')\<close>\<close>

definition excerpt :: "pystr \<Rightarrow> pystr" where
  "excerpt s = take 50 s @ (if 50 < length s then str ''...'' else [])"

definition detect_high_entropy :: "pystr \<Rightarrow> int \<Rightarrow> py_error + finding list" where
  "detect_high_entropy text block_size =
     (if real (length text) < real_of_int block_size / 2 then Inr []
      else case py_range 0 (int (length text)) block_size of
             Inl e \<Rightarrow> Inl e
           | Inr starts \<Rightarrow>
               let blocks = map (\<lambda>i. py_slice text i (i + block_size)) starts
               in Inr (concat (map (\<lambda>(i, block).
                      if real (length block) < real_of_int block_size / 2 then []
                      else let e = calculate_entropy block
                           in if 7 < e
                              then [\<lparr>ftype = High_entropy, content = excerpt block,
                                     sample_decoded = None, entropy = Some e,
                                     block_index = Some i,
                                     confidence = min (1 / 2 + (e - 7) / 2) (95 / 100)\<rparr>]
                              else [])
                    (enumerate 0 blocks))))"

lemma length_py_slice: "0 \<le> d \<Longrightarrow> length (py_slice xs i (i + d)) \<le> nat d"
  by (auto simp: py_slice_def Let_def min_def max_def)

lemma log2_128: "log 2 (128::real) = 7"
proof -
  have "(128::real) = 2 ^ 7" by simp
  then show ?thesis by (simp only: log_pow_cancel)
qed

lemma entropy_short_block:
  assumes "length block \<le> 127"
  shows "calculate_entropy block < 7"
proof (cases "block = []")
  case True
  then show ?thesis by (simp add: calculate_entropy_def)
next
  case False
  then have "calculate_entropy block \<le> log 2 (real (length block))"
    by (rule calculate_entropy_le_log_length)
  also have "log 2 (real (length block)) < log 2 128"
    using False assms by (subst log_less_cancel_iff) simp_all
  finally show ?thesis by (simp add: log2_128)
qed

lemma detect_high_entropy_small_blocks:
  assumes "0 < block_size" and "block_size \<le> 127"
  shows "detect_high_entropy s block_size = Inr []"
proof -
  have "\<And>i. length (py_slice s i (i + block_size)) \<le> 127"
  proof -
    fix i
    have "length (py_slice s i (i + block_size)) \<le> nat block_size"
      using assms by (intro length_py_slice) simp
    also have "nat block_size \<le> 127" using assms by simp
    finally show "length (py_slice s i (i + block_size)) \<le> 127" .
  qed
  then have "\<And>i. \<not> 7 < calculate_entropy (py_slice s i (i + block_size))"
    using entropy_short_block[of "py_slice s i (i + block_size)" for i] by (simp add: not_less less_imp_le)
  then show ?thesis
    using assms(1)
    by (auto simp: detect_high_entropy_def py_range_def Let_def in_set_enumerate_eq)
qed

text \<open>
  C1. With the default block size 100 the high-entropy-block detector returns the empty
  list for every text: a block has at most 100 characters, so its entropy is at most
  \<open>log2(100) < 7\<close>. (Entropy is computed in exact real arithmetic here.)
\<close>

theorem detect_high_entropy_default_empty:
  "detect_high_entropy s 100 = Inr []"
  by (rule detect_high_entropy_small_blocks) simp_all


theorem detect_high_entropy_default_empty_witness:
  "detect_high_entropy (str ''The quick brown fox jumps over the lazy dog, twice over.'') 100 = Inr []"
  using detect_high_entropy_default_empty[of "str ''The quick brown fox jumps over the lazy dog, twice over.''"]
  by simp

lemma range_down_Nil: "\<not> stop < i \<Longrightarrow> range_down i stop step = []"
  by (simp add: range_down.simps[of i stop step])

lemma detect_high_entropy_findings:
  assumes "detect_high_entropy s block_size = Inr fs" and "f \<in> set fs"
  shows "\<exists>i block. 0 < block_size \<and> block = py_slice s (int i * block_size) (int i * block_size + block_size)
           \<and> real_of_int block_size / 2 \<le> real (length block)
           \<and> 7 < calculate_entropy block
           \<and> f = \<lparr>ftype = High_entropy, content = excerpt block,
                    sample_decoded = None, entropy = Some (calculate_entropy block),
                    block_index = Some i,
                    confidence = min (1 / 2 + (calculate_entropy block - 7) / 2) (95 / 100)\<rparr>"
proof (cases "0 < block_size")
  case False
  then have "fs = []"
    using assms(1)
    by (auto simp: detect_high_entropy_def py_range_def range_down_Nil split: if_splits)
  with assms(2) show ?thesis by simp
next
  case True
  let ?starts = "range_up 0 (int (length s)) block_size"
  let ?blocks = "map (\<lambda>i. py_slice s i (i + block_size)) ?starts"
  from assms True obtain i block where
    ib: "(i, block) \<in> set (enumerate 0 ?blocks)"
    and ge: "\<not> real (length block) < real_of_int block_size / 2"
    and e: "7 < calculate_entropy block"
    and f: "f = \<lparr>ftype = High_entropy, content = excerpt block,
                    sample_decoded = None, entropy = Some (calculate_entropy block),
                    block_index = Some i,
                    confidence = min (1 / 2 + (calculate_entropy block - 7) / 2) (95 / 100)\<rparr>"
    by (auto simp: detect_high_entropy_def py_range_def Let_def split: if_splits)
  from ib have i: "i < length ?starts" and b: "block = ?blocks ! i"
    by (auto simp: in_set_enumerate_eq)
  from range_up_nth[OF i] have "?starts ! i = int i * block_size" by simp
  with i b have "block = py_slice s (int i * block_size) (int i * block_size + block_size)"
    by simp
  with True ge e f show ?thesis by (intro exI[of _ i] exI[of _ block]) simp
qed













section \<open>Library codecs\<close>

subsection \<open>Base64\<close>

text \<open>The alphabet of RFC 4648: the character of a 6-bit value and its inverse table.\<close>

definition b64_char :: "nat \<Rightarrow> nat" where
  "b64_char v =
     (if v < 26 then 65 + v
      else if v < 52 then 97 + (v - 26)
      else if v < 62 then 48 + (v - 52)
      else if v = 62 then 43 else 47)"

definition b64_value :: "nat \<Rightarrow> nat option" where
  "b64_value c =
     (if 65 \<le> c \<and> c \<le> 90 then Some (c - 65)
      else if 97 \<le> c \<and> c \<le> 122 then Some (c - 97 + 26)
      else if 48 \<le> c \<and> c \<le> 57 then Some (c - 48 + 52)
      else if c = 43 then Some 62
      else if c = 47 then Some 63
      else None)"

text \<open>\<open>base64.b64encode\<close>: three bytes give four characters; the tail is padded with \<open>=\<close>.\<close>

fun b64encode :: "pybytes \<Rightarrow> pystr" where
  "b64encode [] = []"
| "b64encode [a] = [b64_char (a div 4), b64_char (a mod 4 * 16), 61, 61]"
| "b64encode [a, b] =
     [b64_char (a div 4), b64_char (a mod 4 * 16 + b div 16), b64_char (b mod 16 * 4), 61]"
| "b64encode (a # b # c # rest) =
     [b64_char (a div 4), b64_char (a mod 4 * 16 + b div 16),
      b64_char (b mod 16 * 4 + c div 64), b64_char (c mod 64)] @ b64encode rest"

text \<open>
  \<open>binascii.a2b_base64\<close> in its default, non-strict mode, as a loop over the characters
  with the state \<open>quad_pos\<close>, \<open>leftchar\<close>, \<open>pads\<close> and the bytes written so far. A
  character outside the alphabet is skipped; a \<open>=\<close> that completes a quad ends the
  decoding; data that ends inside a quad is an error. The shifts and ors of the C code
  combine disjoint bit fields, so they are written as sums.
\<close>

fun a2b_base64 :: "nat \<Rightarrow> nat \<Rightarrow> nat \<Rightarrow> pybytes \<Rightarrow> pystr \<Rightarrow> py_error + pybytes" where
  "a2b_base64 quad_pos leftchar pads out [] =
     (if quad_pos \<noteq> 0 then Inl BinasciiError else Inr out)"
| "a2b_base64 quad_pos leftchar pads out (c # cs) =
     (if c = 61 then
        (if 2 \<le> quad_pos \<and> 4 \<le> quad_pos + (pads + 1) then Inr out
         else a2b_base64 quad_pos leftchar (if 2 \<le> quad_pos then pads + 1 else pads) out cs)
      else case b64_value c of
        None \<Rightarrow> a2b_base64 quad_pos leftchar pads out cs
      | Some v \<Rightarrow>
          (if quad_pos = 0 then a2b_base64 1 v 0 out cs
           else if quad_pos = 1 then
             a2b_base64 2 (v mod 16) 0 (out @ [leftchar * 4 + v div 16]) cs
           else if quad_pos = 2 then
             a2b_base64 3 (v mod 4) 0 (out @ [leftchar * 16 + v div 4]) cs
           else a2b_base64 0 0 0 (out @ [leftchar * 64 + v]) cs))"

text \<open>
  \<open>base64.b64decode(s)\<close> for a \<open>str\<close>: the string is encoded as ASCII first (ValueError
  for a character that is not ASCII), then decoded.
\<close>

definition b64decode :: "pystr \<Rightarrow> py_error + pybytes" where
  "b64decode s = (if list_ex (\<lambda>c. 128 \<le> c) s then Inl ValueError else a2b_base64 0 0 0 [] s)"

subsection \<open>Hexadecimal\<close>

definition hex_value :: "nat \<Rightarrow> nat option" where
  "hex_value c =
     (if 48 \<le> c \<and> c \<le> 57 then Some (c - 48)
      else if 65 \<le> c \<and> c \<le> 70 then Some (c - 65 + 10)
      else if 97 \<le> c \<and> c \<le> 102 then Some (c - 97 + 10)
      else None)"

definition ascii_whitespace :: "nat \<Rightarrow> bool" where
  "ascii_whitespace c = (c = 32 \<or> (9 \<le> c \<and> c \<le> 13))"

text \<open>
  \<open>bytes.fromhex\<close>: two hexadecimal digits per byte, ASCII whitespace between bytes is
  skipped, anything else is a ValueError.
\<close>

fun fromhex :: "pystr \<Rightarrow> py_error + pybytes" where
  "fromhex [] = Inr []"
| "fromhex [a] = (if ascii_whitespace a then Inr [] else Inl ValueError)"
| "fromhex (a # b # rest) =
     (if ascii_whitespace a then fromhex (b # rest)
      else case (hex_value a, hex_value b) of
        (Some x, Some y) \<Rightarrow>
          (case fromhex rest of Inl e \<Rightarrow> Inl e | Inr bs \<Rightarrow> Inr ((16 * x + y) # bs))
      | _ \<Rightarrow> Inl ValueError)"

text \<open>\<open>bytes.hex\<close>: two lowercase digits per byte.\<close>

definition hex_digit :: "nat \<Rightarrow> nat" where
  "hex_digit v = (if v < 10 then 48 + v else 87 + v)"

definition hex_of_bytes :: "pybytes \<Rightarrow> pystr" where
  "hex_of_bytes bs = concat (map (\<lambda>b. [hex_digit (b div 16), hex_digit (b mod 16)]) bs)"

subsection \<open>UTF-8\<close>

definition continuation :: "nat \<Rightarrow> bool" where
  "continuation b = (128 \<le> b \<and> b < 192)"

text \<open>
  \<open>bytes.decode('utf-8')\<close> with the default strict error handling: overlong forms,
  surrogates, code points above U+10FFFF and truncated sequences raise
  UnicodeDecodeError.
\<close>

fun utf8_decode :: "pybytes \<Rightarrow> py_error + pystr" where
  "utf8_decode [] = Inr []"
| "utf8_decode (b0 # bs) =
     (if b0 < 128 then
        (case utf8_decode bs of Inl e \<Rightarrow> Inl e | Inr s \<Rightarrow> Inr (b0 # s))
      else if 194 \<le> b0 \<and> b0 < 224 then
        (case bs of
           b1 # r \<Rightarrow>
             if continuation b1 then
               (case utf8_decode r of Inl e \<Rightarrow> Inl e
                | Inr s \<Rightarrow> Inr (((b0 - 192) * 64 + (b1 - 128)) # s))
             else Inl UnicodeDecodeError
         | _ \<Rightarrow> Inl UnicodeDecodeError)
      else if 224 \<le> b0 \<and> b0 < 240 then
        (case bs of
           b1 # b2 # r \<Rightarrow>
             if continuation b1 \<and> continuation b2
                \<and> (if b0 = 224 then 160 \<le> b1 else True)
                \<and> (if b0 = 237 then b1 < 160 else True) then
               (case utf8_decode r of Inl e \<Rightarrow> Inl e
                | Inr s \<Rightarrow> Inr (((b0 - 224) * 4096 + (b1 - 128) * 64 + (b2 - 128)) # s))
             else Inl UnicodeDecodeError
         | _ \<Rightarrow> Inl UnicodeDecodeError)
      else if 240 \<le> b0 \<and> b0 < 245 then
        (case bs of
           b1 # b2 # b3 # r \<Rightarrow>
             if continuation b1 \<and> continuation b2 \<and> continuation b3
                \<and> (if b0 = 240 then 144 \<le> b1 else True)
                \<and> (if b0 = 244 then b1 < 144 else True) then
               (case utf8_decode r of Inl e \<Rightarrow> Inl e
                | Inr s \<Rightarrow> Inr (((b0 - 240) * 262144 + (b1 - 128) * 4096
                                   + (b2 - 128) * 64 + (b3 - 128)) # s))
             else Inl UnicodeDecodeError
         | _ \<Rightarrow> Inl UnicodeDecodeError)
      else Inl UnicodeDecodeError)"

text \<open>\<open>str.encode('utf-8')\<close> of one code point, and of a string without surrogates.\<close>

definition utf8_encode_char :: "nat \<Rightarrow> pybytes" where
  "utf8_encode_char c =
     (if c < 128 then [c]
      else if c < 2048 then [192 + c div 64, 128 + c mod 64]
      else if c < 65536 then [224 + c div 4096, 128 + c div 64 mod 64, 128 + c mod 64]
      else [240 + c div 262144, 128 + c div 4096 mod 64, 128 + c div 64 mod 64,
            128 + c mod 64])"

definition encodable :: "nat \<Rightarrow> bool" where
  "encodable c = (c < 55296 \<or> (57344 \<le> c \<and> c < 1114112))"

definition utf8_encode :: "pystr \<Rightarrow> pybytes" where
  "utf8_encode s = concat (map utf8_encode_char s)"


section \<open>The encoding detector\<close>

text \<open>
  \<open>str.isalpha\<close> and \<open>str.isprintable\<close> are decided by the Unicode character database
  of the Python runtime; the detector takes them as given.
\<close>

record ucd =
  isalpha :: "nat \<Rightarrow> bool"
  isprintable :: "nat \<Rightarrow> bool"

definition min_length :: nat where
  "min_length = 16"

subsection \<open>The regular expressions\<close>

definition base64_class :: "nat \<Rightarrow> bool" where
  "base64_class c =
     ((65 \<le> c \<and> c \<le> 90) \<or> (97 \<le> c \<and> c \<le> 122) \<or> (48 \<le> c \<and> c \<le> 57) \<or> c = 43 \<or> c = 47)"

definition hex_class :: "nat \<Rightarrow> bool" where
  "hex_class c = ((48 \<le> c \<and> c \<le> 57) \<or> (65 \<le> c \<and> c \<le> 70) \<or> (97 \<le> c \<and> c \<le> 102))"

text \<open>
  \<open>finditer\<close> for a pattern \<open>[class]{min_length,}={0,max_pad}\<close>: at each position the
  greedy match takes the whole run of class characters and then up to \<open>max_pad\<close> equals
  signs; where the run is shorter than \<open>min_length\<close> the search moves on by one
  character; after a match it goes on behind the match.
\<close>

function match_runs :: "(nat \<Rightarrow> bool) \<Rightarrow> nat \<Rightarrow> pystr \<Rightarrow> pystr list" where
  "match_runs cls max_pad text =
     (if text = [] then []
      else if min_length \<le> length (takeWhile cls text) then
        (takeWhile cls text @ take max_pad (takeWhile (\<lambda>c. c = 61) (dropWhile cls text)))
          # match_runs cls max_pad
              (drop (length (take max_pad (takeWhile (\<lambda>c. c = 61) (dropWhile cls text))))
                 (dropWhile cls text))
      else match_runs cls max_pad (tl text))"
  by pat_completeness auto
termination
proof (relation "measure (\<lambda>(cls, max_pad, s). length s)")
  show "wf (measure (\<lambda>(cls, max_pad, s). length s))" by simp
next
  fix cls :: "nat \<Rightarrow> bool" and max_pad :: nat and s :: pystr
  assume "s \<noteq> []" and m: "min_length \<le> length (takeWhile cls s)"
  have "length (takeWhile cls s) + length (dropWhile cls s) = length s"
    by (metis length_append takeWhile_dropWhile_id)
  with m have "length (dropWhile cls s) < length s" by (simp add: min_length_def)
  then show "((cls, max_pad,
               drop (length (take max_pad (takeWhile (\<lambda>c. c = 61) (dropWhile cls s))))
                 (dropWhile cls s)), cls, max_pad, s)
             \<in> measure (\<lambda>(cls, max_pad, s). length s)"
    by simp
next
  fix cls :: "nat \<Rightarrow> bool" and max_pad :: nat and s :: pystr
  assume "s \<noteq> []"
  then show "((cls, max_pad, tl s), cls, max_pad, s) \<in> measure (\<lambda>(cls, max_pad, s). length s)"
    by (cases s) simp_all
qed

declare match_runs.simps [simp del]

text \<open>The number of groups \<open>%XX\<close> at the start of a text.\<close>

fun url_groups :: "pystr \<Rightarrow> nat" where
  "url_groups (p # a # b # rest) =
     (if p = 37 \<and> hex_class a \<and> hex_class b then Suc (url_groups rest) else 0)"
| "url_groups _ = 0"

text \<open>\<open>finditer\<close> for \<open>(?:%[0-9A-Fa-f]{2}){3,}\<close>.\<close>

function url_matches :: "pystr \<Rightarrow> pystr list" where
  "url_matches text =
     (if text = [] then []
      else if 3 \<le> url_groups text then
        take (3 * url_groups text) text # url_matches (drop (3 * url_groups text) text)
      else url_matches (tl text))"
  by pat_completeness auto
termination
proof (relation "measure length")
  show "wf (measure length)" by simp
next
  fix s :: pystr
  assume "s \<noteq> []" and "3 \<le> url_groups s"
  then show "(drop (3 * url_groups s) s, s) \<in> measure length" by simp
next
  fix s :: pystr
  assume "s \<noteq> []"
  then show "(tl s, s) \<in> measure length" by (cases s) simp_all
qed

declare url_matches.simps [simp del]

subsection \<open>Helpers of the detectors\<close>

text \<open>\<open>s.rstrip('=')\<close> for the character \<open>c\<close>.\<close>

definition rstrip :: "nat \<Rightarrow> pystr \<Rightarrow> pystr" where
  "rstrip c s = rev (dropWhile (\<lambda>x. x = c) (rev s))"

definition common_chars :: pystr where
  "common_chars = str '' .,;:?!-()[]{}'' @ [34, 39]"

definition is_readable_text :: "ucd \<Rightarrow> pystr \<Rightarrow> bool" where
  "is_readable_text u text =
     (if text = [] then False
      else let has_letters = list_ex (isalpha u) text;
               has_common_chars = list_ex (\<lambda>c. c \<in> set common_chars) text;
               printable_ratio = real (length (filter (isprintable u) text)) / real (length text)
           in has_letters \<and> has_common_chars \<and> 95 / 100 < printable_ratio)"

text \<open>\<open>format(byte, '08b')\<close>: the binary digits, padded with zeros to eight.\<close>

fun bin_digits :: "nat \<Rightarrow> pystr" where
  "bin_digits n = (if n < 2 then [48 + n] else bin_digits (n div 2) @ [48 + n mod 2])"

declare bin_digits.simps [simp del]

definition format_08b :: "nat \<Rightarrow> pystr" where
  "format_08b n = replicate (8 - length (bin_digits n)) 48 @ bin_digits n"

definition binary_string :: "pybytes \<Rightarrow> pystr" where
  "binary_string decoded = concat (map format_08b decoded)"

text \<open>The bare \<open>except: pass\<close> around the body of a loop iteration.\<close>

definition except_pass :: "py_error + finding list \<Rightarrow> finding list" where
  "except_pass r = (case r of Inl e \<Rightarrow> [] | Inr fs \<Rightarrow> fs)"

text \<open>
  What both detectors do with the decoded bytes: the inner \<open>try\<close> decodes them as UTF-8
  and reports readable text; its \<open>except UnicodeDecodeError\<close> looks at the entropy of
  the bit string instead.
\<close>

definition classify_decoded ::
  "ucd \<Rightarrow> finding_type \<Rightarrow> real \<Rightarrow> finding_type \<Rightarrow> real \<Rightarrow> pystr \<Rightarrow> pybytes
     \<Rightarrow> py_error + finding list" where
  "classify_decoded u text_type text_conf binary_type binary_conf encoded decoded =
     (case utf8_decode decoded of
        Inr decoded_text \<Rightarrow>
          Inr (if is_readable_text u decoded_text
               then [\<lparr>ftype = text_type, content = encoded,
                      sample_decoded = Some (excerpt decoded_text), entropy = None,
                      block_index = None, confidence = text_conf\<rparr>]
               else [])
      | Inl e \<Rightarrow>
          if e = UnicodeDecodeError then
            let binary_entropy = calculate_entropy (binary_string decoded)
            in Inr (if 7 < binary_entropy
                    then [\<lparr>ftype = binary_type, content = encoded, sample_decoded = None,
                           entropy = Some binary_entropy, block_index = None,
                           confidence = binary_conf\<rparr>]
                    else [])
          else Inl e)"

subsection \<open>The detectors\<close>

text \<open>The body of the outer \<open>try\<close> of \<open>detect_base64\<close> for one match.\<close>

definition base64_candidate :: "ucd \<Rightarrow> pystr \<Rightarrow> py_error + finding list" where
  "base64_candidate u encoded =
     (let padding = (if length encoded mod 4 \<noteq> 0 then 4 - length encoded mod 4 else 0);
          padded = encoded @ replicate padding 61
      in case b64decode padded of
           Inl e \<Rightarrow> Inl e
         | Inr decoded \<Rightarrow>
             classify_decoded u Base64 (9 / 10) Base64_binary (7 / 10) encoded decoded)"

definition detect_base64 :: "ucd \<Rightarrow> pystr \<Rightarrow> py_error + finding list" where
  "detect_base64 u text =
     Inr (concat (map (\<lambda>encoded.
            if length (rstrip 61 encoded) < min_length then []
            else except_pass (base64_candidate u encoded))
          (match_runs base64_class 3 text)))"

definition hex_candidate :: "ucd \<Rightarrow> pystr \<Rightarrow> py_error + finding list" where
  "hex_candidate u encoded =
     (case fromhex encoded of
        Inl e \<Rightarrow> Inl e
      | Inr decoded \<Rightarrow>
          classify_decoded u Hexadecimal (85 / 100) Hex_binary (6 / 10) encoded decoded)"

definition detect_hex :: "ucd \<Rightarrow> pystr \<Rightarrow> py_error + finding list" where
  "detect_hex u text =
     Inr (concat (map (\<lambda>encoded.
            if length encoded mod 2 \<noteq> 0 then []
            else except_pass (hex_candidate u encoded))
          (match_runs hex_class 0 text)))"

definition url_candidate :: "ucd \<Rightarrow> pystr \<Rightarrow> py_error + finding list" where
  "url_candidate u encoded =
     (case fromhex (filter (\<lambda>c. c \<noteq> 37) encoded) of
        Inl e \<Rightarrow> Inl e
      | Inr decoded \<Rightarrow>
          (case utf8_decode decoded of
             Inr decoded_text \<Rightarrow>
               Inr (if is_readable_text u decoded_text
                    then [\<lparr>ftype = Url_encoding, content = encoded,
                           sample_decoded = Some (excerpt decoded_text), entropy = None,
                           block_index = None, confidence = 8 / 10\<rparr>]
                    else [])
           | Inl e \<Rightarrow> if e = UnicodeDecodeError then Inr [] else Inl e))"

definition detect_url_encoding :: "ucd \<Rightarrow> pystr \<Rightarrow> py_error + finding list" where
  "detect_url_encoding u text =
     Inr (concat (map (\<lambda>encoded. except_pass (url_candidate u encoded)) (url_matches text)))"


subsection \<open>Scoring a page\<close>

text \<open>
  The reasons are formatted strings in the code; here each is a constructor that
  carries the number the string shows.
\<close>

datatype reason =
  High_pattern_density real
| Multiple_high_confidence nat
| High_entropy_blocks nat
| Multiple_base64 nat

record encoding_result =
  findings :: "finding list"
  result_suspicious :: bool
  result_suspicion_score :: real
  result_suspicion_reasons :: "reason list"

text \<open>
  The score is computed over exact reals; the builtin \<open>round(x, 2)\<close> is taken as given
  (\<open>round_2\<close>).
\<close>

definition score_findings ::
  "(real \<Rightarrow> real) \<Rightarrow> pystr \<Rightarrow> finding list \<Rightarrow> finding list \<Rightarrow> finding list
     \<Rightarrow> finding list \<Rightarrow> encoding_result" where
  "score_findings round_2 text base64_findings hex_findings url_findings entropy_findings =
     (let all_findings = base64_findings @ hex_findings @ url_findings @ entropy_findings;
          total_patterns = length all_findings;
          text_length = length text;
          pattern_density = real total_patterns / (real text_length / 1000);
          (score1, reasons1) =
            (if 1 / 2 < pattern_density
             then (pattern_density, [High_pattern_density pattern_density])
             else (0, []));
          high_confidence_patterns = length (filter (\<lambda>f. 8 / 10 < confidence f) all_findings);
          (score2, reasons2) =
            (if 3 \<le> high_confidence_patterns
             then (score1 + real high_confidence_patterns * (1 / 2),
                   reasons1 @ [Multiple_high_confidence high_confidence_patterns])
             else (score1, reasons1));
          high_entropy_blocks =
            length (filter (\<lambda>f. 75 / 10 < (case entropy f of None \<Rightarrow> 0 | Some e \<Rightarrow> e))
                      entropy_findings);
          (score3, reasons3) =
            (if 0 < high_entropy_blocks
             then (score2 + real high_entropy_blocks,
                   reasons2 @ [High_entropy_blocks high_entropy_blocks])
             else (score2, reasons2));
          base64_patterns = length base64_findings;
          (suspicion_score, reasons4) =
            (if 2 < base64_patterns
             then (score3 + real base64_patterns * (7 / 10),
                   reasons3 @ [Multiple_base64 base64_patterns])
             else (score3, reasons3))
      in \<lparr>findings = sort_key (\<lambda>f. - confidence f) all_findings,
          result_suspicious = (5 < suspicion_score),
          result_suspicion_score = round_2 suspicion_score,
          result_suspicion_reasons = (if 5 < suspicion_score then reasons4 else [])\<rparr>)"

definition detect_encodings ::
  "ucd \<Rightarrow> (real \<Rightarrow> real) \<Rightarrow> pystr \<Rightarrow> py_error + encoding_result" where
  "detect_encodings u round_2 text =
     (if text = [] \<or> length text < min_length then
        Inr \<lparr>findings = [], result_suspicious = False, result_suspicion_score = 0,
             result_suspicion_reasons = []\<rparr>
      else
        case detect_base64 u text of Inl e \<Rightarrow> Inl e | Inr base64_findings \<Rightarrow>
        case detect_hex u text of Inl e \<Rightarrow> Inl e | Inr hex_findings \<Rightarrow>
        case detect_url_encoding u text of Inl e \<Rightarrow> Inl e | Inr url_findings \<Rightarrow>
        case detect_high_entropy text 100 of Inl e \<Rightarrow> Inl e | Inr entropy_findings \<Rightarrow>
          Inr (score_findings round_2 text base64_findings hex_findings url_findings
                 entropy_findings))"

section \<open>Orchestrator: the request\<close>

datatype json = JNull | JBool bool | JInt int | JFloat real | JString pystr | JCompound bool

text \<open>Truth value of a JSON value in Python; a \<open>JCompound\<close> carries whether it is non-empty.\<close>

fun truthy :: "json \<Rightarrow> bool" where
  "truthy JNull = False"
| "truthy (JBool b) = b"
| "truthy (JInt n) = (n \<noteq> 0)"
| "truthy (JFloat x) = (x \<noteq> 0)"
| "truthy (JString s) = (s \<noteq> [])"
| "truthy (JCompound nonempty) = nonempty"

text \<open>
  A request is either multipart form data, with the uploaded \<open>pdf_file\<close> (if any) and
  the form field \<open>chunk_size\<close> (if any), or a JSON payload. The body of a JSON payload
  is not valid JSON (\<open>get_json\<close> raises ValueError), or a JSON value that is not an
  object (it has no \<open>get\<close>), or an object, given by the values of its keys \<open>pdf_data\<close>
  and \<open>chunk_size\<close> (if present).
\<close>

datatype json_body = Not_json | Not_an_object | Json_object "json option" "json option"

datatype request =
  Multipart "pybytes option" "pystr option"
| Json_payload json_body

datatype response = Bad_request | Server_error py_error | Dispatch "(int \<times> int) list"

text \<open>\<open>range\<close> and \<open>+\<close> accept an \<open>int\<close> or a \<open>bool\<close> and raise TypeError otherwise.\<close>

fun as_integer :: "json \<Rightarrow> py_error + int" where
  "as_integer (JInt n) = Inr n"
| "as_integer (JBool b) = Inr (if b then 1 else 0)"
| "as_integer _ = Inl TypeError"

definition compute_chunks :: "int \<Rightarrow> json \<Rightarrow> py_error + (int \<times> int) list" where
  "compute_chunks page_total chunk_size =
     (case as_integer chunk_size of Inl e \<Rightarrow> Inl e | Inr n \<Rightarrow> chunks page_total n)"

text \<open>
  The orchestrator up to the point where the chunks are handed to the processor:
  \<open>Dispatch\<close> carries the chunk list. \<open>int_of_str\<close> is the builtin \<open>int\<close> on a string and
  \<open>page_count\<close> the priming call \<open>process_pdf_chunk(pdf_data, (0, 1))['total_pages']\<close>;
  every exception ends in the handler that answers with status 500.
\<close>

definition partition_document ::
  "(json \<Rightarrow> py_error + int) \<Rightarrow> json \<Rightarrow> json \<Rightarrow> response" where
  "partition_document page_count pdf_data chunk_size =
     (if \<not> truthy pdf_data then Bad_request
      else case page_count pdf_data of
        Inl e \<Rightarrow> Server_error e
      | Inr page_total \<Rightarrow>
          (case compute_chunks page_total chunk_size of
             Inl e \<Rightarrow> Server_error e
           | Inr cl \<Rightarrow> Dispatch cl))"

definition orchestrator_function ::
  "(pystr \<Rightarrow> py_error + int) \<Rightarrow> (json \<Rightarrow> py_error + int) \<Rightarrow> request \<Rightarrow> response" where
  "orchestrator_function int_of_str page_count req =
     (case req of
        Multipart files form_chunk_size \<Rightarrow>
          (case files of
             None \<Rightarrow> Bad_request
           | Some pdf_bytes \<Rightarrow>
               (case form_chunk_size of
                  None \<Rightarrow> partition_document page_count (JString (b64encode pdf_bytes)) (JInt 5)
                | Some v \<Rightarrow>
                    (case int_of_str v of
                       Inr n \<Rightarrow>
                         partition_document page_count (JString (b64encode pdf_bytes)) (JInt n)
                     | Inl e \<Rightarrow>
                         if e = ValueError \<or> e = TypeError
                         then partition_document page_count (JString (b64encode pdf_bytes)) (JInt 5)
                         else Server_error e)))
      | Json_payload body \<Rightarrow>
          (case body of
             Not_json \<Rightarrow> Bad_request
           | Not_an_object \<Rightarrow> Server_error AttributeError
           | Json_object pdf_data chunk_size \<Rightarrow>
               partition_document page_count
                 (case pdf_data of None \<Rightarrow> JNull | Some d \<Rightarrow> d)
                 (case chunk_size of None \<Rightarrow> JInt 5 | Some c \<Rightarrow> c)))"

section \<open>Properties of the detectors\<close>

lemma bin_digits_set: "set (bin_digits n) \<subseteq> {48, 49}"
proof (induction n rule: bin_digits.induct)
  case (1 n)
  show ?case
  proof (cases "n < 2")
    case True
    then have "n = 0 \<or> n = 1" by auto
    then show ?thesis by (auto simp: bin_digits.simps[of n])
  next
    case False
    have "n mod 2 = 0 \<or> n mod 2 = 1" by auto
    with False "1.IH" show ?thesis by (auto simp: bin_digits.simps[of n])
  qed
qed

lemma binary_string_set: "set (binary_string decoded) \<subseteq> {48, 49}"
  using bin_digits_set by (auto simp: binary_string_def format_08b_def)

lemma binary_entropy_le_1: "calculate_entropy (binary_string decoded) \<le> 1"
proof (cases "binary_string decoded = []")
  case True
  then show ?thesis by (simp add: calculate_entropy_def)
next
  case False
  let ?S = "set (binary_string decoded)"
  have "card ?S \<le> card {48, 49 :: nat}"
    by (rule card_mono) (simp_all add: binary_string_set)
  then have c: "card ?S \<le> 2" by simp
  have p: "0 < card ?S" using False by (simp add: card_gt_0_iff)
  have "calculate_entropy (binary_string decoded) \<le> log 2 (real (card ?S))"
    using False by (rule calculate_entropy_le_log_card)
  also have "\<dots> \<le> log 2 2"
    using c p by (subst log_le_cancel_iff) simp_all
  finally show ?thesis by simp
qed

lemma classify_decoded_types:
  assumes "classify_decoded u tt tc bt bc encoded decoded = Inr fs" and "f \<in> set fs"
  shows "ftype f = tt \<and> content f = encoded"
proof (cases "utf8_decode decoded")
  case (Inr decoded_text)
  with assms show ?thesis
    by (auto simp: classify_decoded_def split: if_splits)
next
  case (Inl e)
  have "\<not> 7 < calculate_entropy (binary_string decoded)"
    using binary_entropy_le_1[of decoded] by simp
  with Inl assms show ?thesis
    by (auto simp: classify_decoded_def Let_def split: if_splits)
qed

lemma base64_candidate_types:
  "base64_candidate u encoded = Inr fs \<Longrightarrow> f \<in> set fs \<Longrightarrow> ftype f = Base64 \<and> content f = encoded"
  by (auto simp: base64_candidate_def Let_def split: sum.splits dest: classify_decoded_types)

lemma hex_candidate_types:
  "hex_candidate u encoded = Inr fs \<Longrightarrow> f \<in> set fs \<Longrightarrow> ftype f = Hexadecimal \<and> content f = encoded"
  by (auto simp: hex_candidate_def split: sum.splits dest: classify_decoded_types)

lemma url_candidate_types:
  "url_candidate u encoded = Inr fs \<Longrightarrow> f \<in> set fs \<Longrightarrow> ftype f = Url_encoding \<and> content f = encoded"
  by (auto simp: url_candidate_def split: sum.splits if_splits)

lemma except_pass_mem:
  "f \<in> set (except_pass r) \<Longrightarrow> \<exists>fs. r = Inr fs \<and> f \<in> set fs"
  by (cases r) (simp_all add: except_pass_def)

lemma detect_base64_findings:
  assumes "detect_base64 u s = Inr fs" and "f \<in> set fs"
  shows "\<exists>fs'. base64_candidate u (content f) = Inr fs' \<and> f \<in> set fs' \<and> ftype f = Base64
             \<and> content f \<in> set (match_runs base64_class 3 s)"
proof -
  from assms obtain encoded where m: "encoded \<in> set (match_runs base64_class 3 s)"
      and f: "f \<in> set (except_pass (base64_candidate u encoded))"
    by (auto simp: detect_base64_def split: if_splits)
  from except_pass_mem[OF f] obtain fs' where c: "base64_candidate u encoded = Inr fs'" "f \<in> set fs'"
    by blast
  from base64_candidate_types[OF c] c m show ?thesis by auto
qed

lemma detect_hex_findings:
  assumes "detect_hex u s = Inr fs" and "f \<in> set fs"
  shows "\<exists>fs'. hex_candidate u (content f) = Inr fs' \<and> f \<in> set fs' \<and> ftype f = Hexadecimal
             \<and> content f \<in> set (match_runs hex_class 0 s)"
proof -
  from assms obtain encoded where m: "encoded \<in> set (match_runs hex_class 0 s)"
      and f: "f \<in> set (except_pass (hex_candidate u encoded))"
    by (auto simp: detect_hex_def split: if_splits)
  from except_pass_mem[OF f] obtain fs' where c: "hex_candidate u encoded = Inr fs'" "f \<in> set fs'"
    by blast
  from hex_candidate_types[OF c] c m show ?thesis by auto
qed

lemma detect_url_encoding_findings:
  assumes "detect_url_encoding u s = Inr fs" and "f \<in> set fs"
  shows "\<exists>fs'. url_candidate u (content f) = Inr fs' \<and> f \<in> set fs' \<and> ftype f = Url_encoding
             \<and> content f \<in> set (url_matches s)"
proof -
  from assms obtain encoded where m: "encoded \<in> set (url_matches s)"
      and f: "f \<in> set (except_pass (url_candidate u encoded))"
    by (auto simp: detect_url_encoding_def split: if_splits)
  from except_pass_mem[OF f] obtain fs' where c: "url_candidate u encoded = Inr fs'" "f \<in> set fs'"
    by blast
  from url_candidate_types[OF c] c m show ?thesis by auto
qed

text \<open>
  C2. No finding of \<open>detect_base64\<close> has the type \<open>base64_binary\<close> and no finding of
  \<open>detect_hex\<close> has the type \<open>hex_binary\<close>: the bit string of the decoded bytes has at
  most two distinct characters, so its entropy is at most 1 and never above 7.
\<close>

theorem no_binary_findings:
  "(\<exists>fs. detect_base64 u s = Inr fs \<and> \<not> list_ex (\<lambda>f. ftype f = Base64_binary) fs)
   \<and> (\<exists>fs. detect_hex u s = Inr fs \<and> \<not> list_ex (\<lambda>f. ftype f = Hex_binary) fs)"
proof -
  obtain fb where fb: "detect_base64 u s = Inr fb" by (simp add: detect_base64_def)
  obtain fh where fh: "detect_hex u s = Inr fh" by (simp add: detect_hex_def)
  have "\<And>f. f \<in> set fb \<Longrightarrow> ftype f = Base64"
    using detect_base64_findings[OF fb] by blast
  then have "\<not> list_ex (\<lambda>f. ftype f = Base64_binary) fb"
    by (auto simp: list_ex_iff)
  moreover have "\<And>f. f \<in> set fh \<Longrightarrow> ftype f = Hexadecimal"
    using detect_hex_findings[OF fh] by blast
  then have "\<not> list_ex (\<lambda>f. ftype f = Hex_binary) fh"
    by (auto simp: list_ex_iff)
  ultimately show ?thesis using fb fh by simp
qed

text \<open>
  C10. Each detector returns a list of findings for every input string (the
  high-entropy-block detector with its default block size), and every finding of the
  three decoding detectors comes from a candidate whose decoding raised no exception: a
  candidate that fails to decode leaves no finding.
\<close>

theorem detectors_total:
  "(\<exists>fs. detect_base64 u s = Inr fs
        \<and> (\<forall>f. f \<in> set fs \<longrightarrow> (\<exists>fs'. base64_candidate u (content f) = Inr fs' \<and> f \<in> set fs')))
   \<and> (\<exists>fs. detect_hex u s = Inr fs
        \<and> (\<forall>f. f \<in> set fs \<longrightarrow> (\<exists>fs'. hex_candidate u (content f) = Inr fs' \<and> f \<in> set fs')))
   \<and> (\<exists>fs. detect_url_encoding u s = Inr fs
        \<and> (\<forall>f. f \<in> set fs \<longrightarrow> (\<exists>fs'. url_candidate u (content f) = Inr fs' \<and> f \<in> set fs')))
   \<and> (\<exists>fs. detect_high_entropy s 100 = Inr fs)"
proof -
  obtain fb where fb: "detect_base64 u s = Inr fb" by (simp add: detect_base64_def)
  obtain fh where fh: "detect_hex u s = Inr fh" by (simp add: detect_hex_def)
  obtain fu where fu: "detect_url_encoding u s = Inr fu" by (simp add: detect_url_encoding_def)
  have e: "\<exists>fs. detect_high_entropy s 100 = Inr fs"
    by (simp add: detect_high_entropy_def py_range_def)
  have "\<forall>f. f \<in> set fb \<longrightarrow> (\<exists>fs'. base64_candidate u (content f) = Inr fs' \<and> f \<in> set fs')"
    using detect_base64_findings[OF fb] by blast
  moreover have "\<forall>f. f \<in> set fh \<longrightarrow> (\<exists>fs'. hex_candidate u (content f) = Inr fs' \<and> f \<in> set fs')"
    using detect_hex_findings[OF fh] by blast
  moreover have "\<forall>f. f \<in> set fu \<longrightarrow> (\<exists>fs'. url_candidate u (content f) = Inr fs' \<and> f \<in> set fs')"
    using detect_url_encoding_findings[OF fu] by blast
  ultimately show ?thesis using fb fh fu e by simp
qed

text \<open>
  C7. A page text of fewer than 16 characters gives the empty, non-suspicious result:
  no findings, \<open>suspicious = False\<close>, score 0 and no reasons, whatever the text is.
\<close>

theorem detect_encodings_short:
  "length s < 16 \<Longrightarrow>
     detect_encodings u round_2 s
       = Inr \<lparr>findings = [], result_suspicious = False,
              result_suspicion_score = 0, result_suspicion_reasons = []\<rparr>"
  by (simp add: detect_encodings_def min_length_def)

definition ascii_ucd :: ucd where
  "ascii_ucd = \<lparr>isalpha = (\<lambda>c. (65 \<le> c \<and> c \<le> 90) \<or> (97 \<le> c \<and> c \<le> 122)),
                isprintable = (\<lambda>c. 32 \<le> c \<and> c < 127)\<rparr>"

theorem detect_encodings_short_witness:
  "\<forall>round_2. detect_encodings ascii_ucd round_2 (str ''aGVsbG8gd29ybGQ'')
     = Inr \<lparr>findings = [], result_suspicious = False,
            result_suspicion_score = 0, result_suspicion_reasons = []\<rparr>"
proof
  fix round_2
  have "length (str ''aGVsbG8gd29ybGQ'') < 16" by (simp add: str_def)
  then show "detect_encodings ascii_ucd round_2 (str ''aGVsbG8gd29ybGQ'')
     = Inr \<lparr>findings = [], result_suspicious = False,
            result_suspicion_score = 0, result_suspicion_reasons = []\<rparr>"
    by (rule detect_encodings_short)
qed

text \<open>Seventeen data characters cannot be decoded: the candidate is dropped.\<close>

lemma undecodable_candidate:
  "base64_candidate u (str ''AAAAAAAAAAAAAAAAA'') = Inl BinasciiError"
proof -
  have l: "length (str ''AAAAAAAAAAAAAAAAA'') = 17" by code_simp
  have d: "b64decode (str ''AAAAAAAAAAAAAAAAA'' @ replicate 3 61) = Inl BinasciiError"
    by code_simp
  show ?thesis by (simp add: base64_candidate_def l d)
qed

theorem detectors_total_witness:
  "base64_candidate ascii_ucd (str ''AAAAAAAAAAAAAAAAA'') = Inl BinasciiError
   \<and> detect_base64 ascii_ucd (str ''AAAAAAAAAAAAAAAAA'') = Inr []"
proof -
  have m: "match_runs base64_class 3 (str ''AAAAAAAAAAAAAAAAA'') = [str ''AAAAAAAAAAAAAAAAA'']"
    by code_simp
  have r: "length (rstrip 61 (str ''AAAAAAAAAAAAAAAAA'')) = 17" by code_simp
  have "detect_base64 ascii_ucd (str ''AAAAAAAAAAAAAAAAA'') = Inr []"
    by (simp add: detect_base64_def m r min_length_def undecodable_candidate except_pass_def)
  with detectors_total[of ascii_ucd "str ''AAAAAAAAAAAAAAAAA''"] undecodable_candidate
  show ?thesis by simp
qed

text \<open>Sixteen slashes decode to twelve bytes 255, which are not UTF-8.\<close>

theorem no_binary_findings_witness:
  "b64decode (str ''////////////////'') = Inr (replicate 12 255)
   \<and> utf8_decode (replicate 12 255) = Inl UnicodeDecodeError
   \<and> detect_base64 ascii_ucd (str ''////////////////'') = Inr []"
proof -
  have m: "match_runs base64_class 3 (str ''////////////////'') = [str ''////////////////'']"
    by code_simp
  have r: "length (rstrip 61 (str ''////////////////'')) = 16" by code_simp
  have l: "length (str ''////////////////'') = 16" by code_simp
  have d: "b64decode (str ''////////////////'') = Inr (replicate 12 255)" by code_simp
  have v: "utf8_decode (replicate 12 255) = Inl UnicodeDecodeError" by code_simp
  have e: "\<not> 7 < calculate_entropy (binary_string (replicate 12 255))"
    using binary_entropy_le_1[of "replicate 12 255"] by simp
  have c: "base64_candidate ascii_ucd (str ''////////////////'') = Inr []"
    using e by (simp add: base64_candidate_def classify_decoded_def l d v Let_def)
  have "detect_base64 ascii_ucd (str ''////////////////'') = Inr []"
    by (simp add: detect_base64_def m r min_length_def c except_pass_def)
  with no_binary_findings[of ascii_ucd "str ''////////////////''"] d v
  show ?thesis by simp
qed

section \<open>The chunk size of a request\<close>

text \<open>
  For concrete requests: \<open>int\<close> on ASCII decimal strings with an optional sign (the
  builtin also accepts surrounding whitespace, underscores between digits and other
  decimal digits, which are not parsed here), and a document of twelve pages.
\<close>

definition decimal_digits :: "pystr \<Rightarrow> bool" where
  "decimal_digits s = (s \<noteq> [] \<and> list_all (\<lambda>c. 48 \<le> c \<and> c \<le> 57) s)"

definition decimal_value :: "pystr \<Rightarrow> int" where
  "decimal_value s = foldl (\<lambda>a c. 10 * a + int (c - 48)) 0 s"

definition ascii_int_of_str :: "pystr \<Rightarrow> py_error + int" where
  "ascii_int_of_str s =
     (if decimal_digits s then Inr (decimal_value s)
      else case s of
        [] \<Rightarrow> Inl ValueError
      | c # r \<Rightarrow>
          if c = 45 \<and> decimal_digits r then Inr (- decimal_value r)
          else if c = 43 \<and> decimal_digits r then Inr (decimal_value r)
          else Inl ValueError)"

definition twelve_pages :: "json \<Rightarrow> py_error + int" where
  "twelve_pages pdf_data = Inr 12"

lemma chunks_12_5: "chunks 12 5 = Inr [(0, 5), (5, 10), (10, 12)]"
  by (simp add: chunks_def py_range_def range_up.simps)

lemma chunks_zero: "chunks n 0 = Inl ValueError"
  by (simp add: chunks_def py_range_def)

lemma chunks_negative: "0 \<le> n \<Longrightarrow> k < 0 \<Longrightarrow> chunks n k = Inr []"
  by (simp add: chunks_def py_range_def range_down_Nil)

text \<open>
  C8, as the code has it. When \<open>chunk_size\<close> is missing (no key in the JSON payload, no
  field in the form) or the form field is not an integer (\<open>int\<close> raises ValueError or
  TypeError), the orchestrator partitions the document with the default 5. A supplied
  integer \<open>k\<close>, given as a JSON integer or as a form field that \<open>int\<close> parses, is used as it
  is: the answer is what the chunk computation gives for \<open>k\<close>, which is the error of
  \<open>range\<close> for \<open>k = 0\<close>, no chunk at all for \<open>k < 0\<close>, and a partition of the pages for
  \<open>k > 0\<close>.
\<close>

theorem chunk_size_default:
  assumes "truthy pdf_data" and "page_count pdf_data = Inr n" and "0 \<le> n"
  shows "\<exists>cl. chunks n 5 = Inr cl \<and> concat (map pages_of cl) = [0 .. n - 1]
     \<and> orchestrator_function int_of_str page_count (Json_payload (Json_object (Some pdf_data) None))
         = Dispatch cl
     \<and> orchestrator_function int_of_str page_count
           (Json_payload (Json_object (Some pdf_data) (Some (JInt k))))
         = (case chunks n k of Inl e \<Rightarrow> Server_error e | Inr cl' \<Rightarrow> Dispatch cl')
     \<and> (pdf_data = JString (b64encode pdf_bytes) \<longrightarrow>
           orchestrator_function int_of_str page_count (Multipart (Some pdf_bytes) None)
             = Dispatch cl
         \<and> (int_of_str v = Inl ValueError \<or> int_of_str v = Inl TypeError \<longrightarrow>
              orchestrator_function int_of_str page_count (Multipart (Some pdf_bytes) (Some v))
                = Dispatch cl)
         \<and> (int_of_str v = Inr k \<longrightarrow>
              orchestrator_function int_of_str page_count (Multipart (Some pdf_bytes) (Some v))
                = (case chunks n k of Inl e \<Rightarrow> Server_error e | Inr cl' \<Rightarrow> Dispatch cl')))
     \<and> (k = 0 \<longrightarrow> chunks n k = Inl ValueError)
     \<and> (k < 0 \<longrightarrow> chunks n k = Inr [])
     \<and> (0 < k \<longrightarrow> (\<exists>cl'. chunks n k = Inr cl' \<and> concat (map pages_of cl') = [0 .. n - 1]))"
proof -
  from chunks_pages[OF assms(3), of 5] obtain cl where
    cl: "chunks n 5 = Inr cl" "concat (map pages_of cl) = [0 .. n - 1]"
    by auto
  have d: "partition_document page_count pdf_data (JInt 5) = Dispatch cl"
    using assms cl by (simp add: partition_document_def compute_chunks_def)
  have k: "partition_document page_count pdf_data (JInt k)
             = (case chunks n k of Inl e \<Rightarrow> Server_error e | Inr cl' \<Rightarrow> Dispatch cl')"
    using assms by (simp add: partition_document_def compute_chunks_def)
  have j1: "orchestrator_function int_of_str page_count
              (Json_payload (Json_object (Some pdf_data) None)) = Dispatch cl"
    using d by (simp add: orchestrator_function_def)
  have j2: "orchestrator_function int_of_str page_count
              (Json_payload (Json_object (Some pdf_data) (Some (JInt k))))
            = (case chunks n k of Inl e \<Rightarrow> Server_error e | Inr cl' \<Rightarrow> Dispatch cl')"
    using k by (simp add: orchestrator_function_def)
  have m: "pdf_data = JString (b64encode pdf_bytes) \<longrightarrow>
           orchestrator_function int_of_str page_count (Multipart (Some pdf_bytes) None)
             = Dispatch cl
         \<and> (int_of_str v = Inl ValueError \<or> int_of_str v = Inl TypeError \<longrightarrow>
              orchestrator_function int_of_str page_count (Multipart (Some pdf_bytes) (Some v))
                = Dispatch cl)
         \<and> (int_of_str v = Inr k \<longrightarrow>
              orchestrator_function int_of_str page_count (Multipart (Some pdf_bytes) (Some v))
                = (case chunks n k of Inl e \<Rightarrow> Server_error e | Inr cl' \<Rightarrow> Dispatch cl'))"
    using d k by (auto simp: orchestrator_function_def)
  have z: "k = 0 \<longrightarrow> chunks n k = Inl ValueError" by (simp add: chunks_zero)
  have g: "k < 0 \<longrightarrow> chunks n k = Inr []" using assms(3) by (simp add: chunks_negative)
  have q: "0 < k \<longrightarrow> (\<exists>cl'. chunks n k = Inr cl' \<and> concat (map pages_of cl') = [0 .. n - 1])"
    using chunks_pages[OF assms(3), of k] by simp
  show ?thesis
    by (rule exI[of _ cl]) (intro conjI cl j1 j2 m z g q)
qed

theorem chunk_size_default_witness:
  "orchestrator_function ascii_int_of_str twelve_pages
      (Json_payload (Json_object (Some (JString (str ''JVBERi0=''))) None))
     = Dispatch [(0, 5), (5, 10), (10, 12)]
   \<and> orchestrator_function ascii_int_of_str twelve_pages
      (Multipart (Some (str ''%PDF-'')) (Some (str ''five'')))
     = Dispatch [(0, 5), (5, 10), (10, 12)]
   \<and> orchestrator_function ascii_int_of_str twelve_pages
      (Multipart (Some (str ''%PDF-'')) (Some (str ''7'')))
     = Dispatch [(0, 7), (7, 12)]
   \<and> orchestrator_function ascii_int_of_str twelve_pages
      (Multipart (Some (str ''%PDF-'')) (Some (str ''0'')))
     = Server_error ValueError"
proof -
  have t: "truthy (JString (b64encode (str ''%PDF-'')))" by code_simp
  have p: "twelve_pages (JString (b64encode (str ''%PDF-''))) = Inr 12"
    by (simp add: twelve_pages_def)
  have e: "JString (str ''JVBERi0='') = JString (b64encode (str ''%PDF-''))" by code_simp
  have v: "ascii_int_of_str (str ''five'') = Inl ValueError" by code_simp
  have v7: "ascii_int_of_str (str ''7'') = Inr 7" by code_simp
  have v0: "ascii_int_of_str (str ''0'') = Inr 0" by code_simp
  have c7: "chunks 12 7 = Inr [(0, 7), (7, 12)]"
    by (simp add: chunks_def py_range_def range_up.simps)
  from chunk_size_default[of "JString (b64encode (str ''%PDF-''))" twelve_pages 12
         ascii_int_of_str 5 "str ''%PDF-''" "str ''five''", OF t p]
       chunk_size_default[of "JString (b64encode (str ''%PDF-''))" twelve_pages 12
         ascii_int_of_str 7 "str ''%PDF-''" "str ''7''", OF t p]
       chunk_size_default[of "JString (b64encode (str ''%PDF-''))" twelve_pages 12
         ascii_int_of_str 0 "str ''%PDF-''" "str ''0''", OF t p]
       chunks_12_5 c7 e v v7 v0
  show ?thesis by simp
qed

theorem chunk_size_nonpositive_counterexample:
  "orchestrator_function ascii_int_of_str twelve_pages
      (Json_payload (Json_object (Some (JString (str ''JVBERi0=''))) (Some (JInt 0))))
     = Server_error ValueError
   \<and> orchestrator_function ascii_int_of_str twelve_pages
      (Multipart (Some (str ''%PDF-'')) (Some (str ''-3'')))
     = Dispatch []
   \<and> chunks 12 5 = Inr [(0, 5), (5, 10), (10, 12)]"
proof -
  have t: "b64encode (str ''%PDF-'') \<noteq> []" by code_simp
  have t': "str ''JVBERi0='' \<noteq> []" by code_simp
  have v: "ascii_int_of_str (str ''-3'') = Inr (- 3)" by code_simp
  have c0: "chunks 12 0 = Inl ValueError" by (simp add: chunks_def py_range_def)
  have c3: "chunks 12 (- 3) = Inr []"
    by (simp add: chunks_def py_range_def range_down.simps)
  show ?thesis
    by (simp add: orchestrator_function_def partition_document_def compute_chunks_def
          twelve_pages_def t t' v c0 c3 chunks_12_5)
qed

section \<open>Round trips of the codecs\<close>

lemma b64_value_char: "v < 64 \<Longrightarrow> b64_value (b64_char v) = Some v"
  unfolding b64_value_def b64_char_def by (simp; arith)

lemma b64_char_class: "v < 64 \<Longrightarrow> base64_class (b64_char v)"
  unfolding base64_class_def b64_char_def by (simp; arith)

lemma b64_char_not_pad: "v < 64 \<Longrightarrow> b64_char v \<noteq> 61"
  unfolding b64_char_def by (simp; arith)

lemma b64_char_ascii: "v < 64 \<Longrightarrow> b64_char v < 128"
  unfolding b64_char_def by (simp; arith)

lemma split_div: "r < m \<Longrightarrow> (q * m + r) div m = (q::nat)"
  by simp

lemma sextets:
  fixes a b c :: nat
  assumes "a < 256" "b < 256" "c < 256"
  shows "a div 4 < 64" "a mod 4 * 16 + b div 16 < 64" "b mod 16 * 4 + c div 64 < 64"
        "c mod 64 < 64" "a mod 4 * 16 < 64" "b mod 16 * 4 < 64"
proof -
  have a: "a mod 4 < 4" and b: "b mod 16 < 16" by simp_all
  have b': "b div 16 < 16" and c': "c div 64 < 4" using assms by simp_all
  show "a div 4 < 64" using assms by simp
  show "a mod 4 * 16 + b div 16 < 64" using a b' by linarith
  show "b mod 16 * 4 + c div 64 < 64" using b c' by linarith
  show "c mod 64 < 64" by simp
  show "a mod 4 * 16 < 64" using a by linarith
  show "b mod 16 * 4 < 64" using b by linarith
qed

lemma octet1: "b < 256 \<Longrightarrow> a div 4 * 4 + (a mod 4 * 16 + b div 16) div 16 = (a::nat)"
proof -
  assume "b < 256"
  then have b': "b div 16 < 16" by simp
  show ?thesis by (simp add: split_div[OF b'])
qed

lemma octet2:
  "b < 256 \<Longrightarrow> c < 256 \<Longrightarrow>
     (a mod 4 * 16 + b div 16) mod 16 * 16 + (b mod 16 * 4 + c div 64) div 4 = (b::nat)"
proof -
  assume "b < 256" "c < 256"
  then have b': "b div 16 < 16" and c': "c div 64 < 4" by simp_all
  show ?thesis using b' by (simp add: split_div[OF c'])
qed

lemma octet3: "c < 256 \<Longrightarrow> (b mod 16 * 4 + c div 64) mod 4 * 64 + c mod 64 = (c::nat)"
proof -
  assume "c < 256"
  then have c': "c div 64 < 4" by simp
  show ?thesis using c' by simp
qed

lemma octet1_tail: "a div 4 * 4 + (a mod 4 * 16) div 16 = (a::nat)"
  by simp

lemma octet2_tail:
  "b < 256 \<Longrightarrow> (a mod 4 * 16 + b div 16) mod 16 * 16 + (b mod 16 * 4) div 4 = (b::nat)"
proof -
  assume "b < 256"
  then have b': "b div 16 < 16" by simp
  show ?thesis using b' by simp
qed

lemma a2b_quad:
  assumes "v1 < 64" "v2 < 64" "v3 < 64" "v4 < 64"
  shows "a2b_base64 0 l p out (b64_char v1 # b64_char v2 # b64_char v3 # b64_char v4 # cs)
       = a2b_base64 0 0 0 (out @ [v1 * 4 + v2 div 16, v2 mod 16 * 16 + v3 div 4, v3 mod 4 * 64 + v4]) cs"
  using assms by (simp add: b64_value_char b64_char_not_pad)

lemma a2b_tail2:
  assumes "v1 < 64" "v2 < 64"
  shows "a2b_base64 0 l p out [b64_char v1, b64_char v2, 61, 61] = Inr (out @ [v1 * 4 + v2 div 16])"
  using assms by (simp add: b64_value_char b64_char_not_pad)

lemma a2b_tail3:
  assumes "v1 < 64" "v2 < 64" "v3 < 64"
  shows "a2b_base64 0 l p out [b64_char v1, b64_char v2, b64_char v3, 61]
       = Inr (out @ [v1 * 4 + v2 div 16, v2 mod 16 * 16 + v3 div 4])"
  using assms by (simp add: b64_value_char b64_char_not_pad)

lemma a2b_b64encode:
  "list_all (\<lambda>b. b < 256) bs \<Longrightarrow> a2b_base64 0 0 0 out (b64encode bs) = Inr (out @ bs)"
proof (induction bs arbitrary: out rule: b64encode.induct)
  case 1
  show ?case by simp
next
  case (2 a)
  then have a: "a < 256" by simp
  show ?case
    using sextets[OF a a a]
    by (simp del: a2b_base64.simps add: a2b_tail2 octet1_tail)
next
  case (3 a b)
  then have ab: "a < 256" "b < 256" by simp_all
  show ?case
    using sextets[OF ab ab(1)] ab
    by (simp del: a2b_base64.simps add: a2b_tail3 octet1 octet2_tail)
next
  case (4 a b c rest)
  then have abc: "a < 256" "b < 256" "c < 256" and r: "list_all (\<lambda>b. b < 256) rest"
    by simp_all
  show ?case
    using sextets[OF abc] abc "4.IH"[OF r]
    by (simp del: a2b_base64.simps add: a2b_quad octet1 octet2 octet3)
qed

lemma b64encode_ascii: "list_all (\<lambda>b. b < 256) bs \<Longrightarrow> list_all (\<lambda>c. c < 128) (b64encode bs)"
proof (induction bs rule: b64encode.induct)
  case 1
  show ?case by simp
next
  case (2 a)
  then have a: "a < 256" by simp
  show ?case using sextets[OF a a a] by (simp add: b64_char_ascii)
next
  case (3 a b)
  then have ab: "a < 256" "b < 256" by simp_all
  show ?case using sextets[OF ab ab(1)] by (simp add: b64_char_ascii)
next
  case (4 a b c rest)
  then have abc: "a < 256" "b < 256" "c < 256" and r: "list_all (\<lambda>b. b < 256) rest"
    by simp_all
  show ?case using sextets[OF abc] "4.IH"[OF r] by (simp add: b64_char_ascii)
qed

lemma b64decode_b64encode:
  assumes "list_all (\<lambda>b. b < 256) bs"
  shows "b64decode (b64encode bs) = Inr bs"
proof -
  have "\<not> list_ex (\<lambda>c. 128 \<le> c) (b64encode bs)"
    using b64encode_ascii[OF assms] by (auto simp: list_ex_iff list_all_iff)
  then show ?thesis
    using a2b_b64encode[OF assms, of "[]"] by (simp add: b64decode_def)
qed

text \<open>The shape of an encoding: class characters, then at most two equals signs.\<close>

lemma b64encode_shape:
  "list_all (\<lambda>b. b < 256) bs \<Longrightarrow>
     \<exists>run k. b64encode bs = run @ replicate k 61 \<and> list_all base64_class run \<and> k \<le> 2
            \<and> length (b64encode bs) mod 4 = 0"
proof (induction bs rule: b64encode.induct)
  case 1
  show ?case by (intro exI[of _ "[]"] exI[of _ 0]) simp
next
  case (2 a)
  then have a: "a < 256" by simp
  show ?case
    using sextets[OF a a a]
    by (intro exI[of _ "[b64_char (a div 4), b64_char (a mod 4 * 16)]"] exI[of _ 2])
       (simp add: b64_char_class numeral_2_eq_2)
next
  case (3 a b)
  then have ab: "a < 256" "b < 256" by simp_all
  show ?case
    using sextets[OF ab ab(1)]
    by (intro exI[of _ "[b64_char (a div 4), b64_char (a mod 4 * 16 + b div 16),
                         b64_char (b mod 16 * 4)]"] exI[of _ 1])
       (simp add: b64_char_class)
next
  case (4 a b c rest)
  then have abc: "a < 256" "b < 256" "c < 256" and r: "list_all (\<lambda>b. b < 256) rest"
    by simp_all
  from "4.IH"[OF r] obtain run k where
    s: "b64encode rest = run @ replicate k 61" "list_all base64_class run" "k \<le> 2"
       "length (b64encode rest) mod 4 = 0"
    by (elim exE conjE)
  show ?case
    using sextets[OF abc] s
    by (intro exI[of _ "[b64_char (a div 4), b64_char (a mod 4 * 16 + b div 16),
                 b64_char (b mod 16 * 4 + c div 64), b64_char (c mod 64)] @ run"] exI[of _ k])
       (simp add: b64_char_class)
qed


subsection \<open>A text that is one candidate\<close>

lemma takeWhile_run:
  assumes "list_all cls run" and "\<not> cls (61::nat)"
  shows "takeWhile cls (run @ replicate k 61) = run"
    and "dropWhile cls (run @ replicate k 61) = replicate k 61"
proof -
  have r: "\<And>x. x \<in> set run \<Longrightarrow> cls x" using assms(1) by (simp add: list_all_iff)
  have t: "takeWhile cls (replicate k 61) = []" using assms(2) by (cases k) simp_all
  have d: "dropWhile cls (replicate k 61) = replicate k 61" using assms(2) by (cases k) simp_all
  show "takeWhile cls (run @ replicate k 61) = run"
    using r t by (simp add: takeWhile_append2)
  show "dropWhile cls (run @ replicate k 61) = replicate k 61"
    using r d by (simp add: dropWhile_append2)
qed

lemma match_runs_single:
  assumes "list_all cls run" and "\<not> cls 61" and "min_length \<le> length run" and "k \<le> max_pad"
  shows "match_runs cls max_pad (run @ replicate k 61) = [run @ replicate k 61]"
proof -
  have ne: "run @ replicate k 61 \<noteq> []" using assms(3) by (auto simp: min_length_def)
  have p: "take max_pad (takeWhile (\<lambda>c. c = 61) (replicate k (61::nat))) = replicate k 61"
    using assms(4) by simp
  have e: "match_runs cls max_pad [] = []" by (simp add: match_runs.simps)
  have "match_runs cls max_pad (run @ replicate k 61)
          = (run @ replicate k 61) # match_runs cls max_pad (drop (length (replicate k (61::nat))) (replicate k 61))"
    using ne assms(3)
    by (subst match_runs.simps) (simp only: takeWhile_run[OF assms(1,2)] p if_True if_False)
  then show ?thesis by (simp add: e)
qed

lemma rstrip_run:
  assumes "list_all cls run" and "\<not> cls 61"
  shows "rstrip 61 (run @ replicate k 61) = run"
proof -
  have "dropWhile (\<lambda>x. x = 61) (rev run) = rev run"
  proof (cases "rev run")
    case Nil
    then show ?thesis by simp
  next
    case (Cons x xs)
    then have "x \<in> set run" by (metis list.set_intros(1) set_rev)
    with assms have "x \<noteq> 61" by (auto simp: list_all_iff)
    with Cons show ?thesis by simp
  qed
  moreover have "dropWhile (\<lambda>x. x = 61) (replicate k 61 @ rev run) = dropWhile (\<lambda>x. x = 61) (rev run)"
    by (rule dropWhile_append2) simp
  ultimately show ?thesis
    by (simp add: rstrip_def)
qed

subsection \<open>Hexadecimal\<close>

lemma hex_value_digit: "v < 16 \<Longrightarrow> hex_value (hex_digit v) = Some v"
  unfolding hex_value_def hex_digit_def by (simp; arith)

lemma hex_digit_class: "v < 16 \<Longrightarrow> hex_class (hex_digit v)"
  unfolding hex_class_def hex_digit_def by (simp; arith)

lemma hex_digit_not_space: "v < 16 \<Longrightarrow> \<not> ascii_whitespace (hex_digit v)"
  unfolding ascii_whitespace_def hex_digit_def by (simp; arith)

lemma fromhex_hex_of_bytes:
  "list_all (\<lambda>b. b < 256) bs \<Longrightarrow> fromhex (hex_of_bytes bs) = Inr bs"
proof (induction bs)
  case Nil
  show ?case by (simp add: hex_of_bytes_def)
next
  case (Cons b bs)
  then have b: "b < 256" and r: "fromhex (hex_of_bytes bs) = Inr bs" by simp_all
  have d: "b div 16 < 16" "b mod 16 < 16" using b by simp_all
  have "hex_of_bytes (b # bs) = hex_digit (b div 16) # hex_digit (b mod 16) # hex_of_bytes bs"
    by (simp add: hex_of_bytes_def)
  then show ?case
    using d r by (simp add: hex_value_digit hex_digit_not_space)
qed

lemma hex_of_bytes_class:
  "list_all (\<lambda>b. b < 256) bs \<Longrightarrow> list_all hex_class (hex_of_bytes bs)"
proof (induction bs)
  case Nil
  show ?case by (simp add: hex_of_bytes_def)
next
  case (Cons b bs)
  then have b: "b < 256" and r: "list_all hex_class (hex_of_bytes bs)" by simp_all
  have d: "b div 16 < 16" "b mod 16 < 16" using b by simp_all
  have "hex_of_bytes (b # bs) = hex_digit (b div 16) # hex_digit (b mod 16) # hex_of_bytes bs"
    by (simp add: hex_of_bytes_def)
  then show ?case using d r by (simp add: hex_digit_class)
qed

lemma length_hex_of_bytes: "length (hex_of_bytes bs) = 2 * length bs"
  by (induction bs) (simp_all add: hex_of_bytes_def)


subsection \<open>UTF-8\<close>

definition decoded_cons :: "nat \<Rightarrow> py_error + pystr \<Rightarrow> py_error + pystr" where
  "decoded_cons c r = (case r of Inl e \<Rightarrow> Inl e | Inr s \<Rightarrow> Inr (c # s))"

lemma utf8_decode_1: "b0 < 128 \<Longrightarrow> utf8_decode (b0 # bs) = decoded_cons b0 (utf8_decode bs)"
  by (simp add: decoded_cons_def)

lemma utf8_decode_2:
  "194 \<le> b0 \<Longrightarrow> b0 < 224 \<Longrightarrow> continuation b1 \<Longrightarrow>
     utf8_decode (b0 # b1 # bs) = decoded_cons ((b0 - 192) * 64 + (b1 - 128)) (utf8_decode bs)"
  by (simp add: decoded_cons_def)

lemma utf8_decode_3:
  "224 \<le> b0 \<Longrightarrow> b0 < 240 \<Longrightarrow> continuation b1 \<Longrightarrow> continuation b2 \<Longrightarrow>
   (b0 = 224 \<Longrightarrow> 160 \<le> b1) \<Longrightarrow> (b0 = 237 \<Longrightarrow> b1 < 160) \<Longrightarrow>
     utf8_decode (b0 # b1 # b2 # bs)
       = decoded_cons ((b0 - 224) * 4096 + (b1 - 128) * 64 + (b2 - 128)) (utf8_decode bs)"
  by (simp add: decoded_cons_def)

lemma utf8_decode_4:
  "240 \<le> b0 \<Longrightarrow> b0 < 245 \<Longrightarrow> continuation b1 \<Longrightarrow> continuation b2 \<Longrightarrow> continuation b3 \<Longrightarrow>
   (b0 = 240 \<Longrightarrow> 144 \<le> b1) \<Longrightarrow> (b0 = 244 \<Longrightarrow> b1 < 144) \<Longrightarrow>
     utf8_decode (b0 # b1 # b2 # b3 # bs)
       = decoded_cons ((b0 - 240) * 262144 + (b1 - 128) * 4096 + (b2 - 128) * 64 + (b3 - 128))
           (utf8_decode bs)"
  by (simp add: decoded_cons_def)

lemma continuation_byte: "continuation (128 + x mod 64)"
  by (simp add: continuation_def)

text \<open>The base-64 digits of a code point.\<close>

lemma digits64:
  fixes c :: nat
  shows "c = c div 64 * 64 + c mod 64"
    and "c div 64 = c div 4096 * 64 + c div 64 mod 64"
    and "c div 4096 = c div 262144 * 64 + c div 4096 mod 64"
proof -
  show "c = c div 64 * 64 + c mod 64" by simp
  have "c div 4096 = c div 64 div 64" by (simp add: div_mult2_eq)
  then show "c div 64 = c div 4096 * 64 + c div 64 mod 64" by simp
  have "c div 262144 = c div 4096 div 64" by (simp add: div_mult2_eq)
  then show "c div 4096 = c div 262144 * 64 + c div 4096 mod 64" by simp
qed

lemma utf8_decode_encode_char:
  assumes "encodable c"
  shows "utf8_decode (utf8_encode_char c @ bs) = decoded_cons c (utf8_decode bs)"
proof -
  note d = digits64[of c]
  have m: "c mod 64 < 64" "c div 64 mod 64 < 64" "c div 4096 mod 64 < 64" by simp_all
  consider (one) "c < 128" | (two) "128 \<le> c" "c < 2048" | (three) "2048 \<le> c" "c < 65536"
    | (four) "65536 \<le> c"
    by linarith
  then show ?thesis
  proof cases
    case one
    then show ?thesis by (simp add: utf8_encode_char_def decoded_cons_def)
  next
    case two
    have q: "2 \<le> c div 64" "c div 64 < 32" using two d(1) m(1) by linarith+
    have "utf8_decode (utf8_encode_char c @ bs)
            = utf8_decode ((192 + c div 64) # (128 + c mod 64) # bs)"
      using two by (simp add: utf8_encode_char_def)
    also have "\<dots> = decoded_cons ((192 + c div 64 - 192) * 64 + (128 + c mod 64 - 128)) (utf8_decode bs)"
      using q by (intro utf8_decode_2 continuation_byte) simp_all
    finally show ?thesis by simp
  next
    case three
    have q: "c div 4096 < 16" using three d m by linarith
    have lo: "c div 4096 = 0 \<Longrightarrow> 32 \<le> c div 64 mod 64" using three d m by linarith
    have hi: "c div 4096 = 13 \<Longrightarrow> c div 64 mod 64 < 32"
      using three assms d m unfolding encodable_def by linarith
    have "utf8_decode (utf8_encode_char c @ bs)
            = utf8_decode ((224 + c div 4096) # (128 + c div 64 mod 64) # (128 + c mod 64) # bs)"
      using three by (simp add: utf8_encode_char_def)
    also have "\<dots> = decoded_cons ((224 + c div 4096 - 224) * 4096
                         + (128 + c div 64 mod 64 - 128) * 64 + (128 + c mod 64 - 128))
                       (utf8_decode bs)"
      using q lo hi by (intro utf8_decode_3 continuation_byte) simp_all
    also have "(224 + c div 4096 - 224) * 4096 + (128 + c div 64 mod 64 - 128) * 64
                 + (128 + c mod 64 - 128) = c"
    proof -
      have "(224 + c div 4096 - 224) * 4096 + (128 + c div 64 mod 64 - 128) * 64
                 + (128 + c mod 64 - 128)
            = c div 4096 * 4096 + c div 64 mod 64 * 64 + c mod 64"
        by simp
      also have "\<dots> = c" using d by linarith
      finally show ?thesis .
    qed
    finally show ?thesis .
  next
    case four
    have c: "c < 1114112" using four assms unfolding encodable_def by linarith
    have q: "c div 262144 < 5" using c d m by linarith
    have lo: "c div 262144 = 0 \<Longrightarrow> 16 \<le> c div 4096 mod 64" using four d m by linarith
    have hi: "c div 262144 = 4 \<Longrightarrow> c div 4096 mod 64 < 16" using c d m by linarith
    have "utf8_decode (utf8_encode_char c @ bs)
            = utf8_decode ((240 + c div 262144) # (128 + c div 4096 mod 64)
                # (128 + c div 64 mod 64) # (128 + c mod 64) # bs)"
      using four by (simp add: utf8_encode_char_def)
    also have "\<dots> = decoded_cons ((240 + c div 262144 - 240) * 262144
                         + (128 + c div 4096 mod 64 - 128) * 4096
                         + (128 + c div 64 mod 64 - 128) * 64 + (128 + c mod 64 - 128))
                       (utf8_decode bs)"
      using q lo hi by (intro utf8_decode_4 continuation_byte) simp_all
    also have "(240 + c div 262144 - 240) * 262144 + (128 + c div 4096 mod 64 - 128) * 4096
                 + (128 + c div 64 mod 64 - 128) * 64 + (128 + c mod 64 - 128) = c"
    proof -
      have "(240 + c div 262144 - 240) * 262144 + (128 + c div 4096 mod 64 - 128) * 4096
                 + (128 + c div 64 mod 64 - 128) * 64 + (128 + c mod 64 - 128)
            = c div 262144 * 262144 + c div 4096 mod 64 * 4096 + c div 64 mod 64 * 64 + c mod 64"
        by simp
      also have "\<dots> = c" using d by linarith
      finally show ?thesis .
    qed
    finally show ?thesis .
  qed
qed

lemma utf8_decode_encode:
  "list_all encodable s \<Longrightarrow> utf8_decode (utf8_encode s) = Inr s"
proof (induction s)
  case Nil
  show ?case by (simp add: utf8_encode_def)
next
  case (Cons c s)
  then have c: "encodable c" and r: "utf8_decode (utf8_encode s) = Inr s"
    by simp_all
  have "utf8_encode (c # s) = utf8_encode_char c @ utf8_encode s"
    by (simp add: utf8_encode_def)
  then show ?case
    using utf8_decode_encode_char[OF c, of "utf8_encode s"] r
    by (simp add: decoded_cons_def)
qed

lemma utf8_encode_char_bytes:
  assumes "encodable c"
  shows "list_all (\<lambda>b. b < 256) (utf8_encode_char c)"
proof -
  note d = digits64[of c]
  have m: "c mod 64 < 64" "c div 64 mod 64 < 64" "c div 4096 mod 64 < 64" by simp_all
  have c: "c < 1114112" using assms unfolding encodable_def by linarith
  have f1: "c < 2048 \<Longrightarrow> c div 64 < 64" using d m by linarith
  have f2: "c < 65536 \<Longrightarrow> c div 4096 < 32" using d m by linarith
  have f3: "c div 262144 < 16" using c d m by linarith
  have f4: "c mod 64 < 128" "c div 64 mod 64 < 128" "c div 4096 mod 64 < 128"
    using m by linarith+
  show ?thesis
    using f1 f2 f3 f4 by (simp add: utf8_encode_char_def)
qed

lemma utf8_encode_bytes:
  "list_all encodable s \<Longrightarrow> list_all (\<lambda>b. b < 256) (utf8_encode s)"
  by (induction s) (simp_all add: utf8_encode_def utf8_encode_char_bytes)


subsection \<open>Encoded readable text is found again\<close>

lemma excerpt_cases: "excerpt s = (if length s \<le> 50 then s else take 50 s @ str ''...'')"
  by (simp add: excerpt_def)

lemma classify_readable:
  assumes "utf8_decode decoded = Inr s" and "is_readable_text u s"
  shows "classify_decoded u tt tc bt bc encoded decoded
           = Inr [\<lparr>ftype = tt, content = encoded, sample_decoded = Some (excerpt s),
                   entropy = None, block_index = None, confidence = tc\<rparr>]"
  using assms by (simp add: classify_decoded_def)

lemma detect_base64_roundtrip:
  assumes "is_readable_text u s" and "list_all encodable s"
      and "16 \<le> length (rstrip 61 (b64encode (utf8_encode s)))"
  shows "detect_base64 u (b64encode (utf8_encode s))
           = Inr [\<lparr>ftype = Base64, content = b64encode (utf8_encode s),
                   sample_decoded = Some (excerpt s), entropy = None, block_index = None,
                   confidence = 9 / 10\<rparr>]"
proof -
  let ?bytes = "utf8_encode s"
  let ?enc = "b64encode ?bytes"
  have bytes: "list_all (\<lambda>b. b < 256) ?bytes" using assms(2) by (rule utf8_encode_bytes)
  from b64encode_shape[OF bytes] obtain run k where
    shape: "?enc = run @ replicate k 61" and run: "list_all base64_class run" and k: "k \<le> 2"
    and len: "length ?enc mod 4 = 0"
    by (elim exE conjE)
  have pad: "\<not> base64_class 61" by (simp add: base64_class_def)
  have strip: "rstrip 61 ?enc = run"
    unfolding shape using run pad by (rule rstrip_run)
  with assms(3) have long: "min_length \<le> length run" by (simp add: min_length_def)
  have "match_runs base64_class 3 (run @ replicate k 61) = [run @ replicate k 61]"
    using run pad long k by (intro match_runs_single) simp_all
  then have m: "match_runs base64_class 3 ?enc = [?enc]" by (simp only: shape)
  have c: "base64_candidate u ?enc
             = Inr [\<lparr>ftype = Base64, content = ?enc, sample_decoded = Some (excerpt s),
                     entropy = None, block_index = None, confidence = 9 / 10\<rparr>]"
    using len
    by (simp add: base64_candidate_def b64decode_b64encode[OF bytes]
          classify_readable[OF utf8_decode_encode[OF assms(2)] assms(1)])
  show ?thesis
    using long by (simp add: detect_base64_def m strip c except_pass_def)
qed

lemma detect_hex_roundtrip:
  assumes "is_readable_text u s" and "list_all encodable s"
      and "16 \<le> length (hex_of_bytes (utf8_encode s))"
  shows "detect_hex u (hex_of_bytes (utf8_encode s))
           = Inr [\<lparr>ftype = Hexadecimal, content = hex_of_bytes (utf8_encode s),
                   sample_decoded = Some (excerpt s), entropy = None, block_index = None,
                   confidence = 85 / 100\<rparr>]"
proof -
  let ?bytes = "utf8_encode s"
  let ?enc = "hex_of_bytes ?bytes"
  have bytes: "list_all (\<lambda>b. b < 256) ?bytes" using assms(2) by (rule utf8_encode_bytes)
  have run: "list_all hex_class ?enc" using bytes by (rule hex_of_bytes_class)
  have pad: "\<not> hex_class 61" by (simp add: hex_class_def)
  have long: "min_length \<le> length ?enc" using assms(3) by (simp add: min_length_def)
  have "match_runs hex_class 0 (?enc @ replicate 0 61) = [?enc @ replicate 0 61]"
    using run pad long by (intro match_runs_single) simp_all
  then have m: "match_runs hex_class 0 ?enc = [?enc]" by simp
  have even: "length ?enc mod 2 = 0" by (simp add: length_hex_of_bytes)
  have c: "hex_candidate u ?enc
             = Inr [\<lparr>ftype = Hexadecimal, content = ?enc, sample_decoded = Some (excerpt s),
                     entropy = None, block_index = None, confidence = 85 / 100\<rparr>]"
    by (simp add: hex_candidate_def fromhex_hex_of_bytes[OF bytes]
          classify_readable[OF utf8_decode_encode[OF assms(2)] assms(1)])
  show ?thesis
    using even by (simp add: detect_hex_def m c except_pass_def)
qed

text \<open>
  C6. Let \<open>s\<close> be a string that passes \<open>is_readable_text\<close> and can be encoded as UTF-8.
  If its Base64 encoding has at least 16 characters before the padding, \<open>detect_base64\<close>
  on that encoding returns one finding of type \<open>base64\<close> whose \<open>sample_decoded\<close> is \<open>s\<close>
  when \<open>len(s) \<le> 50\<close> and the first 50 characters of \<open>s\<close> followed by \<open>...\<close> otherwise;
  likewise \<open>detect_hex\<close> on the hexadecimal encoding when that has at least 16
  characters.
\<close>

theorem encoded_text_roundtrip:
  assumes "is_readable_text u s" and "list_all encodable s"
  shows "(16 \<le> length (rstrip 61 (b64encode (utf8_encode s))) \<longrightarrow>
            detect_base64 u (b64encode (utf8_encode s))
              = Inr [\<lparr>ftype = Base64, content = b64encode (utf8_encode s),
                      sample_decoded = Some (if length s \<le> 50 then s else take 50 s @ str ''...''),
                      entropy = None, block_index = None, confidence = 9 / 10\<rparr>])
       \<and> (16 \<le> length (hex_of_bytes (utf8_encode s)) \<longrightarrow>
            detect_hex u (hex_of_bytes (utf8_encode s))
              = Inr [\<lparr>ftype = Hexadecimal, content = hex_of_bytes (utf8_encode s),
                      sample_decoded = Some (if length s \<le> 50 then s else take 50 s @ str ''...''),
                      entropy = None, block_index = None, confidence = 85 / 100\<rparr>])"
  using detect_base64_roundtrip[OF assms] detect_hex_roundtrip[OF assms]
  by (simp add: excerpt_cases)

text \<open>Two readable strings and their encodings, computed.\<close>

lemma hello_readable: "is_readable_text ascii_ucd (str ''hello world!!'')"
  by (simp add: is_readable_text_def ascii_ucd_def str_def common_chars_def)

lemma fox_readable:
  "is_readable_text ascii_ucd (str ''The quick brown fox jumps over the lazy dog, twice over.'')"
  by (simp add: is_readable_text_def ascii_ucd_def str_def common_chars_def)

lemma hello_base64:
  "b64encode (utf8_encode (str ''hello world!!'')) = str ''aGVsbG8gd29ybGQhIQ==''"
proof -
  have "utf8_encode (str ''hello world!!'') = str ''hello world!!''"
    by (simp add: utf8_encode_def utf8_encode_char_def str_def)
  moreover have "b64encode (str ''hello world!!'') = str ''aGVsbG8gd29ybGQhIQ==''"
    by code_simp
  ultimately show ?thesis by simp
qed

lemma fox_hex:
  "hex_of_bytes (utf8_encode (str ''The quick brown fox jumps over the lazy dog, twice over.''))
     = str ''54686520717569636b2062726f776e20666f78206a756d7073206f76657220746865206c617a7920646f672c207477696365206f7665722e''"
proof -
  have "utf8_encode (str ''The quick brown fox jumps over the lazy dog, twice over.'')
          = str ''The quick brown fox jumps over the lazy dog, twice over.''"
    by (simp add: utf8_encode_def utf8_encode_char_def str_def)
  moreover have "hex_of_bytes (str ''The quick brown fox jumps over the lazy dog, twice over.'')
     = str ''54686520717569636b2062726f776e20666f78206a756d7073206f76657220746865206c617a7920646f672c207477696365206f7665722e''"
    by code_simp
  ultimately show ?thesis by simp
qed

theorem encoded_text_roundtrip_witness:
  "detect_base64 ascii_ucd (str ''aGVsbG8gd29ybGQhIQ=='')
     = Inr [\<lparr>ftype = Base64, content = str ''aGVsbG8gd29ybGQhIQ=='',
             sample_decoded = Some (str ''hello world!!''),
             entropy = None, block_index = None, confidence = 9 / 10\<rparr>]
   \<and> detect_hex ascii_ucd
       (str ''54686520717569636b2062726f776e20666f78206a756d7073206f76657220746865206c617a7920646f672c207477696365206f7665722e'')
     = Inr [\<lparr>ftype = Hexadecimal,
             content = str ''54686520717569636b2062726f776e20666f78206a756d7073206f76657220746865206c617a7920646f672c207477696365206f7665722e'',
             sample_decoded = Some (str ''The quick brown fox jumps over the lazy dog, twice...''),
             entropy = None, block_index = None, confidence = 85 / 100\<rparr>]"
proof -
  let ?h = "str ''hello world!!''"
  let ?f = "str ''The quick brown fox jumps over the lazy dog, twice over.''"
  have e1: "list_all encodable ?h" by (simp add: str_def encodable_def)
  have e2: "list_all encodable ?f" by (simp add: str_def encodable_def)
  have l1: "16 \<le> length (rstrip 61 (str ''aGVsbG8gd29ybGQhIQ==''))" by code_simp
  have l2: "16 \<le> length (str ''54686520717569636b2062726f776e20666f78206a756d7073206f76657220746865206c617a7920646f672c207477696365206f7665722e'')"
    by (simp add: str_def)
  have s1: "(if length ?h \<le> 50 then ?h else take 50 ?h @ str ''...'') = ?h"
    by (simp add: str_def)
  have s2: "(if length ?f \<le> 50 then ?f else take 50 ?f @ str ''...'')
              = str ''The quick brown fox jumps over the lazy dog, twice...''"
    by (simp add: str_def)
  from encoded_text_roundtrip[OF hello_readable e1] encoded_text_roundtrip[OF fox_readable e2]
  show ?thesis
    by (simp only: hello_base64 fox_hex l1 l2 s1 s2 simp_thms)
qed

end
